theory Spec2Isabelle
  imports Complex_Main "HOL-Library.Sublist"
begin

section \<open>Python values used by the scraper\<close>

text \<open>
  Python strings are modelled as \<^typ>\<open>string\<close>; an \<^verbatim>\<open>Optional[str]\<close> is a
  \<^typ>\<open>string option\<close> with \<^term>\<open>None\<close> for Python's \<^verbatim>\<open>None\<close>.
  Truthiness of such a value (\<^verbatim>\<open>if item:\<close>) is false for \<^verbatim>\<open>None\<close> and
  for the empty string.
\<close>

definition truthy :: "string option \<Rightarrow> bool" where
  "truthy item = (case item of None \<Rightarrow> False | Some s \<Rightarrow> s \<noteq> [])"

text \<open>\<^verbatim>\<open>a or b\<close> on optional strings.\<close>

definition py_or :: "string option \<Rightarrow> string option \<Rightarrow> string option" where
  "py_or a b = (if truthy a then a else b)"

section \<open>utils.unique_list\<close>

text \<open>
  \<^verbatim>\<open>
  def unique_list(items):
      seen = set()
      ordered = []
      for item in items:
          if item and item not in seen:
              seen.add(item)
              ordered.append(item)
      return ordered
  \<close>
  The loop is a recursion over the remaining items that threads \<^verbatim>\<open>seen\<close> and
  \<^verbatim>\<open>ordered\<close>.
\<close>

fun unique_loop ::
  "string option list \<Rightarrow> string option set \<Rightarrow> string option list \<Rightarrow> string option list" where
  "unique_loop [] seen ordered = ordered"
| "unique_loop (item # items) seen ordered =
     (if truthy item \<and> item \<notin> seen
      then unique_loop items (insert item seen) (ordered @ [item])
      else unique_loop items seen ordered)"

definition unique_list :: "string option list \<Rightarrow> string option list" where
  "unique_list items = unique_loop items {} []"

section \<open>storage.LocalDB\<close>

text \<open>
  A target row is the dict built by \<^verbatim>\<open>add_target\<close>, with keys
  \<^verbatim>\<open>id, run_id, type, value, url, status\<close>. A result row is the dict appended by
  \<^verbatim>\<open>save_rental\<close>; the scraped field dict \<^verbatim>\<open>data\<close> is kept abstract
  (type \<open>'d\<close>), and so is the type \<open>'c\<close> of a coordinate. The store holds the list of targets, the next id and the list of
  results.
\<close>

record target =
  t_id :: int
  t_run_id :: int
  t_type :: string
  t_value :: string
  t_url :: string
  t_status :: string

record ('d, 'c) rental =
  r_url :: string
  r_latitude :: "'c option"
  r_longitude :: "'c option"
  r_data :: 'd

record ('d, 'c) localdb =
  targets :: "target list"
  next_target_id :: int
  results :: "('d, 'c) rental list"

definition new_db :: "('d, 'c) localdb" where
  "new_db = \<lparr>targets = [], next_target_id = 1, results = []\<rparr>"

text \<open>
  \<^verbatim>\<open>
  def add_target(self, run_id, typ, clean_url, full_url):
      row = {"id": self._next_target_id, "run_id": run_id, "type": typ,
             "value": clean_url, "url": full_url or clean_url, "status": "queued"}
      self._targets.append(row)
      self._next_target_id += 1
  \<close>
\<close>

definition add_target :: "int \<Rightarrow> string \<Rightarrow> string \<Rightarrow> string option \<Rightarrow> ('d, 'c) localdb \<Rightarrow> ('d, 'c) localdb" where
  "add_target run_id typ clean_url full_url db =
     db\<lparr>targets := targets db @
           [\<lparr>t_id = next_target_id db, t_run_id = run_id, t_type = typ, t_value = clean_url,
             t_url = (case py_or full_url (Some clean_url) of Some u \<Rightarrow> u | None \<Rightarrow> clean_url),
             t_status = ''queued''\<rparr>],
        next_target_id := next_target_id db + 1\<rparr>"

text \<open>
  \<^verbatim>\<open>
  def list_targets(self, run_id, typ, status="queued"):
      return [r for r in self._targets
              if r["run_id"] == run_id and r["type"] == typ and r["status"] == status]
  \<close>
\<close>

definition list_targets :: "int \<Rightarrow> string \<Rightarrow> string \<Rightarrow> ('d, 'c) localdb \<Rightarrow> target list" where
  "list_targets run_id typ st db =
     filter (\<lambda>r. t_run_id r = run_id \<and> t_type r = typ \<and> t_status r = st) (targets db)"

text \<open>
  \<^verbatim>\<open>
  def update_target_status(self, target_id, status):
      for row in self._targets:
          if row["id"] == target_id:
              row["status"] = status
              break
  \<close>
  The loop walks the rows in order, rewrites the status of the first row with the id
  and stops there.
\<close>

fun update_rows :: "int \<Rightarrow> string \<Rightarrow> target list \<Rightarrow> target list" where
  "update_rows target_id st [] = []"
| "update_rows target_id st (row # rows) =
     (if t_id row = target_id then row\<lparr>t_status := st\<rparr> # rows
      else row # update_rows target_id st rows)"

definition update_target_status :: "int \<Rightarrow> string \<Rightarrow> ('d, 'c) localdb \<Rightarrow> ('d, 'c) localdb" where
  "update_target_status target_id st db = db\<lparr>targets := update_rows target_id st (targets db)\<rparr>"

text \<open>
  \<^verbatim>\<open>
  def save_rental(self, run_id, unique_url, data, lat, lon):
      self._results.append({"url": unique_url, "latitude": lat, "longitude": lon, **data})
  \<close>
\<close>

definition save_rental :: "int \<Rightarrow> string \<Rightarrow> 'd \<Rightarrow> 'c option \<Rightarrow> 'c option \<Rightarrow> ('d, 'c) localdb \<Rightarrow> ('d, 'c) localdb" where
  "save_rental run_id unique_url data lat lon db =
     db\<lparr>results := results db @
           [\<lparr>r_url = unique_url, r_latitude = lat, r_longitude = lon, r_data = data\<rparr>]\<rparr>"

text \<open>A store with three rows, two of which carry the id 2.\<close>

definition db3 :: "(unit, unit) localdb" where
  "db3 = \<lparr>targets =
        [\<lparr>t_id = 1, t_run_id = 7, t_type = ''vrbo_detail'', t_value = ''a'', t_url = ''a?x'', t_status = ''queued''\<rparr>,
         \<lparr>t_id = 2, t_run_id = 7, t_type = ''vrbo_detail'', t_value = ''b'', t_url = ''b?x'', t_status = ''queued''\<rparr>,
         \<lparr>t_id = 2, t_run_id = 7, t_type = ''vrbo_detail'', t_value = ''c'', t_url = ''c?x'', t_status = ''queued''\<rparr>],
      next_target_id = 3, results = []\<rparr>"

section \<open>search.run_city\<close>

text \<open>
  The browser is the environment. What one call of a driver routine yields is given to
  the model as an observation; an exception that escapes a routine is a value of
  the type \<open>exc\<close>. In the search loop, reading the page source for the block markers
  (\<^verbatim>\<open>is_blocked\<close>) and the wait for the Enter key (\<^verbatim>\<open>input()\<close>) are taken to
  return; logging and sleeping have no effect on the store and are left out.
\<close>

datatype exc = Exc string

text \<open>A card as returned by \<^verbatim>\<open>extract_cards\<close>: a dict with these four keys.\<close>

record card =
  c_url :: "string option"
  c_full_url :: "string option"
  c_title :: "string option"
  c_price :: "string option"

text \<open>
  One pass of the \<^verbatim>\<open>while True\<close> loop observes: the cards extracted after
  scrolling (or the exception that escapes \<^verbatim>\<open>scroll_page\<close>,
  \<^verbatim>\<open>extract_cards\<close>), whether the block markers are in the page, and what
  \<^verbatim>\<open>click_next\<close> returns (or the exception that escapes it). The loop consults
  the second and third only on the paths where the source calls them.
\<close>

record page_obs =
  p_cards :: "exc + card list"
  p_blocked :: bool
  p_next :: "exc + bool"

definition VRBO_TARGET_TYPE :: string where
  "VRBO_TARGET_TYPE = ''vrbo_detail''"

text \<open>
  \<^verbatim>\<open>
  new_count = 0
  for card in cards:
      clean = card.get("url")
      if clean and clean not in seen:
          seen.add(clean)
          db.add_target(run_id, VRBO_TARGET_TYPE, clean, card.get("full_url"))
          new_count += 1
  \<close>
\<close>

fun add_cards ::
  "int \<Rightarrow> card list \<Rightarrow> string set \<times> ('d, 'c) localdb \<times> nat \<Rightarrow> string set \<times> ('d, 'c) localdb \<times> nat" where
  "add_cards run_id [] acc = acc"
| "add_cards run_id (c # cards) (seen, db, new_count) =
     (case c_url c of
        None \<Rightarrow> add_cards run_id cards (seen, db, new_count)
      | Some clean \<Rightarrow>
          if clean \<noteq> [] \<and> clean \<notin> seen
          then add_cards run_id cards
                 (insert clean seen,
                  add_target run_id VRBO_TARGET_TYPE clean (c_full_url c) db,
                  new_count + 1)
          else add_cards run_id cards (seen, db, new_count))"

text \<open>
  The state carried from one pass of the loop to the next: the set \<^verbatim>\<open>seen\<close>, the
  store and \<^verbatim>\<open>page_num\<close>.
\<close>

record ('d, 'c) search_state =
  s_seen :: "string set"
  s_db :: "('d, 'c) localdb"
  s_page_num :: int

datatype 'a step = Continue 'a | Break 'a | Raise exc 'a

text \<open>
  The body of the loop, lines 194 to 220 of \<^verbatim>\<open>search.py\<close>:
  \<^verbatim>\<open>
  scroll_page(driver)
  cards = extract_cards(driver)
  if not cards:
      if is_blocked(driver):
          input()
          continue
      break
  (the for loop above)
  if new_count == 0:
      break
  if VRBO_MAX_PAGES > 0 and page_num >= VRBO_MAX_PAGES:
      break
  if not click_next(driver):
      break
  page_num += 1
  \<close>
\<close>

definition page_pass :: "int \<Rightarrow> int \<Rightarrow> page_obs \<Rightarrow> ('d, 'c) search_state \<Rightarrow> ('d, 'c) search_state step" where
  "page_pass max_pages run_id obs st =
     (case p_cards obs of
        Inl e \<Rightarrow> Raise e st
      | Inr cards \<Rightarrow>
          if cards = [] then (if p_blocked obs then Continue st else Break st)
          else
            (case add_cards run_id cards (s_seen st, s_db st, 0) of
               (seen, db, new_count) \<Rightarrow>
                 let st' = st\<lparr>s_seen := seen, s_db := db\<rparr> in
                 if new_count = 0 then Break st'
                 else if max_pages > 0 \<and> s_page_num st' \<ge> max_pages then Break st'
                 else
                   (case p_next obs of
                      Inl e \<Rightarrow> Raise e st'
                    | Inr clicked \<Rightarrow>
                        if \<not> clicked then Break st'
                        else Continue (st'\<lparr>s_page_num := s_page_num st' + 1\<rparr>))))"

text \<open>
  The loop itself, driven by the list of observations of its passes. It may go on for
  ever (a page that stays blocked, a site that always has new cards): when the
  observations run out before the loop has stopped the result is \<^term>\<open>None\<close>.
  A result \<open>Some (None, st)\<close> is a normal return with final state \<open>st\<close>,
  \<open>Some (Some e, st)\<close> is the exception \<open>e\<close> leaving the loop in state \<open>st\<close>.
\<close>

fun run_pages ::
  "int \<Rightarrow> int \<Rightarrow> page_obs list \<Rightarrow> ('d, 'c) search_state \<Rightarrow> (exc option \<times> ('d, 'c) search_state) option" where
  "run_pages max_pages run_id [] st = None"
| "run_pages max_pages run_id (obs # rest) st =
     (case page_pass max_pages run_id obs st of
        Continue st' \<Rightarrow> run_pages max_pages run_id rest st'
      | Break st' \<Rightarrow> Some (None, st')
      | Raise e st' \<Rightarrow> Some (Some e, st'))"

text \<open>
  \<^verbatim>\<open>run_city\<close>: load the entry URL (an exception of \<^verbatim>\<open>driver.get\<close> leaves the
  function), check once for a block page, then run the loop with a fresh
  \<^verbatim>\<open>seen\<close> set and \<^verbatim>\<open>page_num = 1\<close>. The entry URL only decides what the
  browser shows, which is what a \<open>site\<close> records.
\<close>

record site =
  entry :: "exc + bool"
  pages :: "page_obs list"

definition run_city :: "int \<Rightarrow> int \<Rightarrow> site \<Rightarrow> ('d, 'c) localdb \<Rightarrow> (exc option \<times> ('d, 'c) localdb) option" where
  "run_city max_pages run_id w db =
     (case entry w of
        Inl e \<Rightarrow> Some (Some e, db)
      | Inr blocked \<Rightarrow>
          map_option (\<lambda>(r, st). (r, s_db st))
            (run_pages max_pages run_id (pages w) \<lparr>s_seen = {}, s_db = db, s_page_num = 1\<rparr>))"

text \<open>
  The search phase of \<^verbatim>\<open>runner.main\<close>:
  \<^verbatim>\<open>
  for city in cities:
      run_city(driver, db, run_id, city)
  \<close>
  with one site per city; an exception ends the phase.
\<close>

fun run_cities :: "int \<Rightarrow> int \<Rightarrow> site list \<Rightarrow> ('d, 'c) localdb \<Rightarrow> (exc option \<times> ('d, 'c) localdb) option" where
  "run_cities max_pages run_id [] db = Some (None, db)"
| "run_cities max_pages run_id (w # ws) db =
     (case run_city max_pages run_id w db of
        None \<Rightarrow> None
      | Some (Some e, db') \<Rightarrow> Some (Some e, db')
      | Some (None, db') \<Rightarrow> run_cities max_pages run_id ws db')"

text \<open>Cards and pages used as concrete inputs below.\<close>

definition mk_card :: "string \<Rightarrow> card" where
  "mk_card u = \<lparr>c_url = Some u, c_full_url = Some (u @ ''?x=1''), c_title = None, c_price = None\<rparr>"

definition mk_page :: "string list \<Rightarrow> bool \<Rightarrow> bool \<Rightarrow> page_obs" where
  "mk_page us blocked clicked = \<lparr>p_cards = Inr (map mk_card us), p_blocked = blocked, p_next = Inr clicked\<rparr>"

definition st0 :: "(unit, unit) search_state" where
  "st0 = \<lparr>s_seen = {}, s_db = new_db, s_page_num = 1\<rparr>"

text \<open>
  How a search pass may change the set \<^verbatim>\<open>seen\<close> and the store: rows are appended,
  all queued rows of the run with pairwise different non-empty normalized URLs, none of
  them seen before, and all of them seen afterwards. Used to reason about the loop.
\<close>

definition grows :: "int \<Rightarrow> string set \<Rightarrow> ('d, 'c) localdb \<Rightarrow> string set \<Rightarrow> ('d, 'c) localdb \<Rightarrow> bool" where
  "grows run_id seen db seen' db' =
     (\<exists>added. targets db' = targets db @ added \<and> results db' = results db
        \<and> next_target_id db' = next_target_id db + int (length added)
        \<and> distinct (map t_value added) \<and> set (map t_value added) \<inter> seen = {}
        \<and> seen' = seen \<union> set (map t_value added)
        \<and> list_all (\<lambda>t. t_run_id t = run_id \<and> t_type t = VRBO_TARGET_TYPE
              \<and> t_status t = ''queued'' \<and> t_value t \<noteq> []) added)"

text \<open>
  The normalized URLs of a page's cards that are new with respect to \<^verbatim>\<open>seen\<close>: the
  non-empty \<^verbatim>\<open>url\<close> entries not in the set.
\<close>

definition fresh_urls :: "string set \<Rightarrow> card list \<Rightarrow> string set" where
  "fresh_urls seen cards = set (filter (\<lambda>u. u \<noteq> [] \<and> u \<notin> seen) (List.map_filter c_url cards))"

text \<open>The state in which a pass of the loop ends, whichever way it ends.\<close>

fun step_state :: "'a step \<Rightarrow> 'a" where
  "step_state (Continue s) = s"
| "step_state (Break s) = s"
| "step_state (Raise e s) = s"

fun is_Break :: "'a step \<Rightarrow> bool" where
  "is_Break (Break s) = True"
| "is_Break (Continue s) = False"
| "is_Break (Raise e s) = False"

text \<open>Concrete sites and pages: inputs of the evaluations further down.\<close>

definition site_dup :: site where
  "site_dup = \<lparr>entry = Inr False,
     pages = [mk_page [''a'', ''b'', ''a''] False True, mk_page [''b'', ''c''] False True,
              mk_page [''a''] False True]\<rparr>"

definition site_a :: site where
  "site_a = \<lparr>entry = Inr False, pages = [mk_page [''a''] False True]\<rparr>"

definition page_five :: page_obs where
  "page_five = mk_page [''a'', ''b'', ''c'', ''d'', ''e''] False True"

definition page_old :: page_obs where
  "page_old = mk_page [''b'', ''a''] True True"

definition page_blocked :: page_obs where
  "page_blocked = mk_page [] True True"

section \<open>detail.scrape_detail_page and detail.process_detail_targets\<close>

text \<open>
  What the browser and the terminal do on one visit of a detail page, in the order in
  which \<^verbatim>\<open>scrape_detail_page\<close> drives them:
  \<^item> \<open>d_get\<close>: the exception of \<^verbatim>\<open>driver.get(full_url)\<close>, if it raises;
  \<^item> \<open>d_heading\<close>: the exception of the 30 second
    \<^verbatim>\<open>WebDriverWait(driver, 30).until(presence_of_element_located(...))\<close> over the
    joined heading selectors, if no heading turns up (a timeout) or the wait fails
    otherwise;
  \<^item> \<open>d_log\<close>: the exception of reading \<^verbatim>\<open>driver.current_url\<close> and
    \<^verbatim>\<open>driver.title\<close> for the log line of the handler, if one of them raises;
  \<^item> \<open>d_blocked\<close>: what \<^verbatim>\<open>is_blocked(driver)\<close> ends with: the exception of
    reading \<^verbatim>\<open>driver.page_source\<close>, or whether the block markers are in the page;
  \<^item> \<open>d_input\<close>: the exception of \<^verbatim>\<open>input()\<close> (\<^verbatim>\<open>EOFError\<close> when there is
    no terminal to read from), if it raises; otherwise the call returns once Enter is
    pressed. A wait that never ends is no outcome of the function and has no value here;
  \<^item> \<open>d_extract\<close>: what the rest of the function (scrolling, plugin state, the search
    for a title block, the field extraction) ends with: an exception that escapes it,
    \<^verbatim>\<open>None\<close> when no title block is found (the function then returns
    \<^verbatim>\<open>None, None\<close>), or the result dict with the coordinates read from the page.
\<close>

record ('d, 'c) detail_page =
  d_get :: "exc option"
  d_heading :: "exc option"
  d_log :: "exc option"
  d_blocked :: "exc + bool"
  d_input :: "exc option"
  d_extract :: "exc + ('d \<times> 'c option \<times> 'c option) option"

text \<open>
  \<^verbatim>\<open>
  if is_blocked(driver):
      log(...)
      input()
  \<close>
  as it stands in the handler and again behind the wait: the exception that leaves
  these lines, if any.
\<close>

definition block_check :: "('d, 'c) detail_page \<Rightarrow> exc option" where
  "block_check p =
     (case d_blocked p of
        Inl e \<Rightarrow> Some e
      | Inr blocked \<Rightarrow> if blocked then d_input p else None)"

text \<open>
  \<^verbatim>\<open>
  def scrape_detail_page(driver, clean_url, full_url):
      log("Visitando detalle", url=clean_url)
      driver.get(full_url)
      try:
          WebDriverWait(driver, 30).until(EC.presence_of_element_located(...))
      except Exception as exc:
          log("Detalle sin encabezado", url=clean_url, current=driver.current_url,
              title=driver.title, error=str(exc))
          if is_blocked(driver):
              log("Detalle bloqueado, resuelve captcha y presiona Enter")
              input()
          return None, None
      if is_blocked(driver):
          log("Detalle bloqueado, resuelve captcha y presiona Enter")
          input()
      ...
      if not title_block:
          ...
          return None, None
      ...
      return result, {"lat": lat, "lon": lon}
  \<close>
  The result is \<open>Inl e\<close> when the exception \<open>e\<close> leaves the function, otherwise the
  returned pair: the data dict or \<^verbatim>\<open>None\<close>, and the coordinate dict (its
  \<^verbatim>\<open>lat\<close> and \<^verbatim>\<open>lon\<close> entries) or \<^verbatim>\<open>None\<close>. Nothing in the handler of
  the wait is guarded: an exception of its reads or of \<^verbatim>\<open>input()\<close> leaves the
  function.
\<close>

definition scrape_detail_page ::
  "('d, 'c) detail_page \<Rightarrow> exc + 'd option \<times> ('c option \<times> 'c option) option" where
  "scrape_detail_page p =
     (case d_get p of
        Some e \<Rightarrow> Inl e
      | None \<Rightarrow>
          (case d_heading p of
             Some e \<Rightarrow>
               (case d_log p of
                  Some e' \<Rightarrow> Inl e'
                | None \<Rightarrow>
                    (case block_check p of
                       Some e' \<Rightarrow> Inl e'
                     | None \<Rightarrow> Inr (None, None)))
           | None \<Rightarrow>
               (case block_check p of
                  Some e' \<Rightarrow> Inl e'
                | None \<Rightarrow>
                    (case d_extract p of
                       Inl e \<Rightarrow> Inl e
                     | Inr None \<Rightarrow> Inr (None, None)
                     | Inr (Some (result, lat, lon)) \<Rightarrow> Inr (Some result, Some (lat, lon))))))"

text \<open>
  The loop of \<^verbatim>\<open>process_detail_targets\<close> over the selected rows:
  \<^verbatim>\<open>
  for row in targets:
      clean_url = row["value"]
      full_url = row["url"] or clean_url
      try:
          data, coordinates = scrape_detail_page(driver, clean_url, full_url)
          if data:
              lat = None
              lon = None
              if coordinates:
                  lat = coordinates.get("lat")
                  lon = coordinates.get("lon")
              db.save_rental(run_id, clean_url, data, lat, lon)
              db.update_target_status(row["id"], "done")
          else:
              db.update_target_status(row["id"], "empty")
      except Exception as exc:
          db.update_target_status(row["id"], "error")
  \<close>
  The rows of the list are the row objects of the store; the loop reads only their
  \<^verbatim>\<open>id\<close>, \<^verbatim>\<open>value\<close> and \<^verbatim>\<open>url\<close>, which no operation of the store
  rewrites, so the list is kept as the rows were when it was built. \<open>web row\<close> is what
  the browser does when the page of \<open>row\<close> is visited. Besides the store the loop
  threads the list of visits: one entry, the normalized URL, for each call of
  \<^verbatim>\<open>scrape_detail_page\<close> (the function logs exactly this on entry). The result
  dict that \<^verbatim>\<open>scrape_detail_page\<close> returns always has entries, so it is truthy.
\<close>

fun process_rows ::
  "(target \<Rightarrow> ('d, 'c) detail_page) \<Rightarrow> int \<Rightarrow> target list \<Rightarrow>
   ('d, 'c) localdb \<times> string list \<Rightarrow> ('d, 'c) localdb \<times> string list" where
  "process_rows web run_id [] (db, visits) = (db, visits)"
| "process_rows web run_id (row # rows) (db, visits) =
     (let clean_url = t_value row;
          full_url = (if t_url row \<noteq> [] then t_url row else clean_url);
          db' =
            (case scrape_detail_page (web row) of
               Inr (Some data, coordinates) \<Rightarrow>
                 (let lat = (case coordinates of None \<Rightarrow> None | Some (la, lo) \<Rightarrow> la);
                      lon = (case coordinates of None \<Rightarrow> None | Some (la, lo) \<Rightarrow> lo)
                  in update_target_status (t_id row) ''done''
                       (save_rental run_id clean_url data lat lon db))
             | Inr (None, coordinates) \<Rightarrow> update_target_status (t_id row) ''empty'' db
             | Inl e \<Rightarrow> update_target_status (t_id row) ''error'' db)
      in process_rows web run_id rows (db', visits @ [clean_url]))"

text \<open>
  \<^verbatim>\<open>
  targets = db.list_targets(run_id, VRBO_TARGET_TYPE, status="queued")
  if VRBO_MAX_DETAIL_TARGETS > 0:
      targets = targets[:VRBO_MAX_DETAIL_TARGETS]
  if not targets:
      return
  \<close>
\<close>

definition detail_targets :: "int \<Rightarrow> int \<Rightarrow> ('d, 'c) localdb \<Rightarrow> target list" where
  "detail_targets max_detail run_id db =
     (let queued = list_targets run_id VRBO_TARGET_TYPE ''queued'' db
      in if max_detail > 0 then take (nat max_detail) queued else queued)"

definition process_detail_targets ::
  "(target \<Rightarrow> ('d, 'c) detail_page) \<Rightarrow> int \<Rightarrow> int \<Rightarrow> ('d, 'c) localdb \<Rightarrow> ('d, 'c) localdb \<times> string list" where
  "process_detail_targets web max_detail run_id db =
     (let rows = detail_targets max_detail run_id db
      in if rows = [] then (db, []) else process_rows web run_id rows (db, []))"

text \<open>
  The status that the loop leaves on a row, and the result row it appends (if any), as
  functions of what \<^verbatim>\<open>scrape_detail_page\<close> ended with. They summarise the loop
  body and are used to state what the whole loop does.
\<close>

definition status_of :: "exc + 'd option \<times> 'k \<Rightarrow> string" where
  "status_of r = (case r of Inl e \<Rightarrow> ''error'' | Inr (None, k) \<Rightarrow> ''empty'' | Inr (Some d, k) \<Rightarrow> ''done'')"

definition rental_of ::
  "(target \<Rightarrow> ('d, 'c) detail_page) \<Rightarrow> target \<Rightarrow> ('d, 'c) rental option" where
  "rental_of web row =
     (case scrape_detail_page (web row) of
        Inr (Some data, Some (lat, lon)) \<Rightarrow>
          Some \<lparr>r_url = t_value row, r_latitude = lat, r_longitude = lon, r_data = data\<rparr>
      | Inr (Some data, None) \<Rightarrow>
          Some \<lparr>r_url = t_value row, r_latitude = None, r_longitude = None, r_data = data\<rparr>
      | _ \<Rightarrow> None)"

text \<open>Pages and a store used as concrete inputs below.\<close>

definition page_timeout :: "(string, rat) detail_page" where
  "page_timeout = \<lparr>d_get = None, d_heading = Some (Exc ''TimeoutException''), d_log = None,
                   d_blocked = Inr True, d_input = None, d_extract = Inl (Exc ''unused'')\<rparr>"

definition page_crash :: "(string, rat) detail_page" where
  "page_crash = \<lparr>d_get = Some (Exc ''page load timeout''), d_heading = None, d_log = None,
                 d_blocked = Inr False, d_input = None, d_extract = Inl (Exc ''unused'')\<rparr>"

definition page_ok :: "(string, rat) detail_page" where
  "page_ok = \<lparr>d_get = None, d_heading = None, d_log = None, d_blocked = Inr False, d_input = None,
              d_extract = Inr (Some (''listing'', Some 4, Some (-74)))\<rparr>"

text \<open>
  A page whose heading never turns up and which shows the block markers, visited
  without a terminal: \<^verbatim>\<open>input()\<close> raises \<^verbatim>\<open>EOFError\<close>.
\<close>

definition page_timeout_eof :: "(string, rat) detail_page" where
  "page_timeout_eof = page_timeout\<lparr>d_input := Some (Exc ''EOFError'')\<rparr>"

text \<open>The same page with a browser session that has died: the page source cannot be read.\<close>

definition page_timeout_dead :: "(string, rat) detail_page" where
  "page_timeout_dead = page_timeout\<lparr>d_blocked := Inl (Exc ''WebDriverException'')\<rparr>"

definition web_bad :: "target \<Rightarrow> (string, rat) detail_page" where
  "web_bad row = (if t_id row = 1 then page_timeout_eof else page_timeout_dead)"

definition web3 :: "target \<Rightarrow> (string, rat) detail_page" where
  "web3 row = (if t_id row = 1 then page_crash else if t_id row = 2 then page_timeout else page_ok)"

definition db_q3 :: "(string, rat) localdb" where
  "db_q3 = add_target 7 VRBO_TARGET_TYPE ''c'' None
            (add_target 7 VRBO_TARGET_TYPE ''b'' (Some ''b?x'')
              (add_target 7 VRBO_TARGET_TYPE ''a'' (Some ''a?x'') new_db))"

text \<open>
  The ids of the rows are handed out by the counter of \<^verbatim>\<open>add_target\<close>: in every
  store that the search phase builds they are pairwise different and below the counter.
\<close>

definition ids_ok :: "('d, 'c) localdb \<Rightarrow> bool" where
  "ids_ok db = (distinct (map t_id (targets db)) \<and> list_all (\<lambda>t. t_id t < next_target_id db) (targets db))"

section \<open>models.CityCfg and utils.ensure_dates\<close>

text \<open>The dataclass \<^verbatim>\<open>CityCfg\<close>, field by field.\<close>

record citycfg =
  name :: string
  region_name :: "string option"
  region_id :: "string option"
  search_url :: "string option"
  checkin :: "string option"
  checkout :: "string option"
  adults :: int
  children :: int
  rooms :: int
  currency :: string
  locale_cfg :: string
  lang :: string
  nights :: int
  sort_cfg :: string
  flexibility :: string

text \<open>
  Decimal text of a natural number and of an integer (\<^verbatim>\<open>str(n)\<close>), and padding with
  zeros on the left (\<^verbatim>\<open>%04d\<close>, \<^verbatim>\<open>%02d\<close>).
\<close>

definition digit_char :: "nat \<Rightarrow> char" where
  "digit_char n = ''0123456789'' ! n"

fun str_nat :: "nat \<Rightarrow> string" where
  "str_nat n = (if n < 10 then [digit_char n] else str_nat (n div 10) @ [digit_char (n mod 10)])"

declare str_nat.simps [simp del]

definition str_int :: "int \<Rightarrow> string" where
  "str_int i = (if i < 0 then CHR ''-'' # str_nat (nat (- i)) else str_nat (nat i))"

definition zfill :: "nat \<Rightarrow> string \<Rightarrow> string" where
  "zfill w s = replicate (w - length s) CHR ''0'' @ s"

text \<open>
  A \<^verbatim>\<open>datetime.date\<close> is modelled by its proleptic Gregorian ordinal
  (\<^verbatim>\<open>date.toordinal()\<close>): day 1 is 0001-01-01 and the last date, 9999-12-31, is day
  3652059. Adding days to a date outside this range raises \<^verbatim>\<open>OverflowError\<close>, and
  so does a \<^verbatim>\<open>timedelta\<close> of more than 999999999 days.
  \<open>isoformat d\<close> is the text \<^verbatim>\<open>YYYY-MM-DD\<close> that \<^verbatim>\<open>date.isoformat()\<close> gives for
  the date with ordinal \<open>d\<close>; year, month and day are computed from the count of
  days since 0000-03-01, in eras of 400 years.
\<close>

definition date_max :: int where
  "date_max = 3652059"

definition timedelta_days :: "int \<Rightarrow> exc + int" where
  "timedelta_days n = (if \<bar>n\<bar> \<le> 999999999 then Inr n else Inl (Exc ''OverflowError''))"

definition date_add :: "int \<Rightarrow> int \<Rightarrow> exc + int" where
  "date_add d n = (if 1 \<le> d + n \<and> d + n \<le> date_max then Inr (d + n) else Inl (Exc ''OverflowError''))"

definition day_of_era :: "int \<Rightarrow> int" where
  "day_of_era d = (d + 305) mod 146097"

definition era_of :: "int \<Rightarrow> int" where
  "era_of d = (d + 305) div 146097"

definition year_of_era :: "int \<Rightarrow> int" where
  "year_of_era doe = (doe - doe div 1460 + doe div 36524 - doe div 146096) div 365"

definition day_of_year :: "int \<Rightarrow> int \<Rightarrow> int" where
  "day_of_year doe yoe = doe - (365 * yoe + yoe div 4 - yoe div 100)"

definition month_index :: "int \<Rightarrow> int" where
  "month_index doy = (5 * doy + 2) div 153"

definition date_day :: "int \<Rightarrow> int" where
  "date_day d =
     day_of_year (day_of_era d) (year_of_era (day_of_era d))
       - (153 * month_index (day_of_year (day_of_era d) (year_of_era (day_of_era d))) + 2) div 5 + 1"

definition month_of_index :: "int \<Rightarrow> int" where
  "month_of_index mp = (if mp < 10 then mp + 3 else mp - 9)"

definition date_month :: "int \<Rightarrow> int" where
  "date_month d = month_of_index (month_index (day_of_year (day_of_era d) (year_of_era (day_of_era d))))"

definition year_shift :: "int \<Rightarrow> int" where
  "year_shift m = (if m \<le> 2 then 1 else 0)"

definition date_year :: "int \<Rightarrow> int" where
  "date_year d = year_of_era (day_of_era d) + era_of d * 400 + year_shift (date_month d)"

definition isoformat :: "int \<Rightarrow> string" where
  "isoformat d =
     zfill 4 (str_int (date_year d)) @ ''-'' @ zfill 2 (str_int (date_month d)) @ ''-''
       @ zfill 2 (str_int (date_day d))"

text \<open>
  \<^verbatim>\<open>
  def _force_tomorrow_dates(c):
      today = datetime.now().date()
      checkin = today + timedelta(days=1)
      checkout = checkin + timedelta(days=max(1, c.nights))
      c.checkin = checkin.isoformat()
      c.checkout = checkout.isoformat()
      return c

  def ensure_dates(c):
      if VRBO_FORCE_TOMORROW:
          return _force_tomorrow_dates(c)
      if not c.checkin or not c.checkout:
          return _force_tomorrow_dates(c)
      return c
  \<close>
  The clock reading \<^verbatim>\<open>datetime.now().date()\<close> is the parameter \<open>today\<close> and the
  configuration constant \<^verbatim>\<open>VRBO_FORCE_TOMORROW\<close> is the parameter \<open>force\<close>. The
  function updates the config in place and returns it; the model returns the updated
  record. Both dates are computed before either field is assigned.
\<close>

definition force_tomorrow_dates :: "int \<Rightarrow> citycfg \<Rightarrow> exc + citycfg" where
  "force_tomorrow_dates today c =
     (case date_add today 1 of
        Inl e \<Rightarrow> Inl e
      | Inr ci \<Rightarrow>
          (case timedelta_days (max 1 (nights c)) of
             Inl e \<Rightarrow> Inl e
           | Inr n \<Rightarrow>
               (case date_add ci n of
                  Inl e \<Rightarrow> Inl e
                | Inr co \<Rightarrow> Inr (c\<lparr>checkin := Some (isoformat ci), checkout := Some (isoformat co)\<rparr>))))"

definition ensure_dates :: "bool \<Rightarrow> int \<Rightarrow> citycfg \<Rightarrow> exc + citycfg" where
  "ensure_dates force today c =
     (if force then force_tomorrow_dates today c
      else if \<not> truthy (checkin c) \<or> \<not> truthy (checkout c) then force_tomorrow_dates today c
      else Inr c)"

text \<open>A config with the defaults of the dataclass, used as concrete input below.\<close>

definition bogota :: citycfg where
  "bogota = \<lparr>name = ''Bogota'', region_name = Some ''Bogota, Distrito Capital, Colombia'',
     region_id = Some ''-592318'', search_url = None, checkin = Some ''2020-01-01'',
     checkout = Some ''2020-01-05'', adults = 2, children = 0, rooms = 1, currency = ''USD'',
     locale_cfg = ''es_CO'', lang = ''es'', nights = 2, sort_cfg = ''PRICE_LOW_TO_HIGH'',
     flexibility = ''0_DAY''\<rparr>"

section \<open>utils.parse_price_amount\<close>

text \<open>
  The regular expression \<^verbatim>\<open>([0-9][0-9.,]*)\<close> under \<^verbatim>\<open>re.search\<close>: the match
  starts at the first ASCII digit of the text and extends over the longest run of
  digits, points and commas that follows.
\<close>

definition is_digit :: "char \<Rightarrow> bool" where
  "is_digit c = (c \<in> set ''0123456789'')"

definition is_price_char :: "char \<Rightarrow> bool" where
  "is_price_char c = (is_digit c \<or> c = CHR ''.'' \<or> c = CHR '','')"

definition search_number :: "string \<Rightarrow> string option" where
  "search_number text =
     (case dropWhile (\<lambda>c. \<not> is_digit c) text of
        [] \<Rightarrow> None
      | rest \<Rightarrow> Some (takeWhile is_price_char rest))"

text \<open>
  \<^verbatim>\<open>
  def parse_price_amount(text):
      if not text:
          return None
      match = re.search(r"([0-9][0-9.,]*)", text)
      if not match:
          return None
      raw = match.group(1)
      value = raw.replace(".", "").replace(",", ".")
      with contextlib.suppress(ValueError):
          return float(value)
      return None
  \<close>
  Python's \<^verbatim>\<open>float\<close> is the parameter \<open>float\<close>: \<open>float value\<close> is \<open>Some x\<close> when
  \<^verbatim>\<open>float(value)\<close> returns the binary float \<open>x\<close> and \<^term>\<open>None\<close> when it raises
  \<^verbatim>\<open>ValueError\<close>, which the function suppresses. The type \<open>'f\<close> of floats is left
  open.
\<close>

definition normalise_price :: "string \<Rightarrow> string" where
  "normalise_price raw =
     map (\<lambda>c. if c = CHR '','' then CHR ''.'' else c) (filter (\<lambda>c. c \<noteq> CHR ''.'') raw)"

definition parse_price_amount :: "(string \<Rightarrow> 'f option) \<Rightarrow> string option \<Rightarrow> 'f option" where
  "parse_price_amount float text =
     (case text of
        None \<Rightarrow> None
      | Some t \<Rightarrow>
          if t = [] then None
          else
            (case search_number t of
               None \<Rightarrow> None
             | Some raw \<Rightarrow> float (normalise_price raw)))"

text \<open>
  A stand-in for \<^verbatim>\<open>float\<close> on concrete inputs: it hands back the text itself when
  the text is one that \<^verbatim>\<open>float\<close> accepts among the texts of digits and points (at
  least one digit, at most one point), and nothing otherwise.
\<close>

definition accepted_text :: "string \<Rightarrow> string option" where
  "accepted_text s =
     (if list_all (\<lambda>c. is_digit c \<or> c = CHR ''.'') s \<and> filter is_digit s \<noteq> []
         \<and> length (filter (\<lambda>c. c = CHR ''.'') s) \<le> 1
      then Some s else None)"

section \<open>URL handling: urllib.parse as used by utils.clean_url and utils.build_entry_url\<close>

text \<open>
  The two functions call \<^verbatim>\<open>urlparse\<close>, \<^verbatim>\<open>urlunparse\<close>, \<^verbatim>\<open>parse_qsl\<close> and
  \<^verbatim>\<open>urlencode\<close> of the standard library (CPython 3.11). These are modelled on
  texts as lists of bytes (a Python text is taken in its UTF-8 form; every character
  the library looks at is ASCII). Two checks of \<^verbatim>\<open>urlsplit\<close> depend on tables that
  are not modelled, the grammar of a bracketed IP literal
  (\<^verbatim>\<open>_check_bracketed_host\<close>) and Unicode normalisation (\<^verbatim>\<open>_checknetloc\<close>);
  their verdict on a network location is the parameter \<open>ok\<close>, consulted exactly when the
  library runs one of them.
\<close>

text \<open>Slices around the first and the last occurrence of a character.\<close>

definition before_first :: "char \<Rightarrow> string \<Rightarrow> string" where
  "before_first c s = takeWhile (\<lambda>x. x \<noteq> c) s"

definition after_first :: "char \<Rightarrow> string \<Rightarrow> string" where
  "after_first c s = drop 1 (dropWhile (\<lambda>x. x \<noteq> c) s)"

definition upto_last :: "char \<Rightarrow> string \<Rightarrow> string" where
  "upto_last c s = rev (dropWhile (\<lambda>x. x \<noteq> c) (rev s))"

definition after_last :: "char \<Rightarrow> string \<Rightarrow> string" where
  "after_last c s = rev (takeWhile (\<lambda>x. x \<noteq> c) (rev s))"

text \<open>Character classes of \<^verbatim>\<open>urllib.parse\<close>.\<close>

definition is_lower :: "char \<Rightarrow> bool" where
  "is_lower c = (c \<in> set ''abcdefghijklmnopqrstuvwxyz'')"

definition is_upper :: "char \<Rightarrow> bool" where
  "is_upper c = (c \<in> set ''ABCDEFGHIJKLMNOPQRSTUVWXYZ'')"

definition is_alpha :: "char \<Rightarrow> bool" where
  "is_alpha c = (is_lower c \<or> is_upper c)"

definition is_scheme_char :: "char \<Rightarrow> bool" where
  "is_scheme_char c = (is_alpha c \<or> is_digit c \<or> c \<in> set ''+-.'')"

definition to_lower :: "char \<Rightarrow> char" where
  "to_lower c =
     (case map_of (zip ''ABCDEFGHIJKLMNOPQRSTUVWXYZ'' ''abcdefghijklmnopqrstuvwxyz'') c of
        Some l \<Rightarrow> l
      | None \<Rightarrow> c)"

definition is_c0_or_space :: "char \<Rightarrow> bool" where
  "is_c0_or_space c = (of_char c \<le> (32::nat))"

definition is_unsafe :: "char \<Rightarrow> bool" where
  "is_unsafe c = (c = CHR 0x09 \<or> c = CHR 0x0D \<or> c = CHR 0x0A)"

definition is_netloc_delim :: "char \<Rightarrow> bool" where
  "is_netloc_delim c = (c = CHR ''/'' \<or> c = CHR ''?'' \<or> c = CHR ''#'')"

definition is_ascii :: "char \<Rightarrow> bool" where
  "is_ascii c = (of_char c < (128::nat))"

definition uses_params :: "string list" where
  "uses_params = ['''', ''ftp'', ''hdl'', ''prospero'', ''http'', ''imap'', ''https'', ''shttp'',
                  ''rtsp'', ''rtsps'', ''rtspu'', ''sip'', ''sips'', ''mms'', ''sftp'', ''tel'']"

definition uses_netloc :: "string list" where
  "uses_netloc = ['''', ''ftp'', ''http'', ''gopher'', ''nntp'', ''telnet'', ''imap'', ''wais'',
                  ''file'', ''mms'', ''https'', ''shttp'', ''snews'', ''prospero'', ''rtsp'',
                  ''rtsps'', ''rtspu'', ''rsync'', ''svn'', ''svn+ssh'', ''sftp'', ''nfs'', ''git'',
                  ''git+ssh'', ''ws'', ''wss'']"

text \<open>The six components of a parsed URL.\<close>

record parse_result =
  u_scheme :: string
  u_netloc :: string
  u_path :: string
  u_params :: string
  u_query :: string
  u_fragment :: string

text \<open>
  The checks of \<^verbatim>\<open>urlsplit\<close> on the network location: a \<^verbatim>\<open>[\<close> without
  \<^verbatim>\<open>]\<close> or the reverse is a \<^verbatim>\<open>ValueError\<close>; a bracketed host and a location
  with a non-ASCII character are handed to the library checks, whose verdict is \<open>ok\<close>.
\<close>

definition netloc_valid :: "(string \<Rightarrow> bool) \<Rightarrow> string \<Rightarrow> bool" where
  "netloc_valid ok netloc =
     (let lb = CHR ''['' \<in> set netloc; rb = CHR '']'' \<in> set netloc in
      if (lb \<and> \<not> rb) \<or> (rb \<and> \<not> lb) then False
      else if (lb \<and> rb) \<or> \<not> list_all is_ascii netloc then ok netloc
      else True)"

text \<open>
  \<^verbatim>\<open>urlsplit(url)\<close> with the default scheme \<^verbatim>\<open>''\<close>: strip leading control
  characters and spaces, drop tabs and line breaks, split off a scheme (the text before
  the first colon, when it starts with a letter and consists of scheme characters), a
  network location after \<^verbatim>\<open>//\<close> up to the first of \<^verbatim>\<open>/?#\<close>, then the fragment
  and the query. The result has no parameters yet.
\<close>

definition split_scheme :: "string \<Rightarrow> string \<times> string" where
  "split_scheme url =
     (let pre = before_first CHR '':'' url in
      if CHR '':'' \<in> set url \<and> pre \<noteq> [] \<and> is_alpha (hd pre) \<and> list_all is_scheme_char pre
      then (map to_lower pre, after_first CHR '':'' url)
      else ([], url))"

definition split_netloc :: "string \<Rightarrow> string \<times> string" where
  "split_netloc url =
     (if take 2 url = ''//''
      then (takeWhile (\<lambda>c. \<not> is_netloc_delim c) (drop 2 url),
            dropWhile (\<lambda>c. \<not> is_netloc_delim c) (drop 2 url))
      else ([], url))"

definition urlsplit :: "(string \<Rightarrow> bool) \<Rightarrow> string \<Rightarrow> exc + parse_result" where
  "urlsplit ok url0 =
     (let url1 = filter (\<lambda>c. \<not> is_unsafe c) (dropWhile is_c0_or_space url0);
          (scheme, url2) = split_scheme url1;
          (netloc, url3) = split_netloc url2
      in if \<not> netloc_valid ok netloc then Inl (Exc ''ValueError'')
         else
           (let fragment = (if CHR ''#'' \<in> set url3 then after_first CHR ''#'' url3 else []);
                url4 = before_first CHR ''#'' url3;
                query = (if CHR ''?'' \<in> set url4 then after_first CHR ''?'' url4 else []);
                url5 = before_first CHR ''?'' url4
            in Inr \<lparr>u_scheme = scheme, u_netloc = netloc, u_path = url5, u_params = [],
                    u_query = query, u_fragment = fragment\<rparr>))"

text \<open>
  \<^verbatim>\<open>
  def _splitparams(url):
      if '/' in url:
          i = url.find(';', url.rfind('/'))
          if i < 0:
              return url, ''
      else:
          i = url.find(';')
      return url[:i], url[i+1:]
  \<close>
  called by \<^verbatim>\<open>urlparse\<close> when the scheme is in \<^verbatim>\<open>uses_params\<close> and the path
  has a semicolon.
\<close>

definition splitparams :: "string \<Rightarrow> string \<times> string" where
  "splitparams url =
     (if CHR ''/'' \<in> set url
      then (let seg = after_last CHR ''/'' url in
            if CHR '';'' \<in> set seg
            then (upto_last CHR ''/'' url @ before_first CHR '';'' seg, after_first CHR '';'' seg)
            else (url, []))
      else (before_first CHR '';'' url, after_first CHR '';'' url))"

definition urlparse :: "(string \<Rightarrow> bool) \<Rightarrow> string \<Rightarrow> exc + parse_result" where
  "urlparse ok url =
     (case urlsplit ok url of
        Inl e \<Rightarrow> Inl e
      | Inr r \<Rightarrow>
          if u_scheme r \<in> set uses_params \<and> CHR '';'' \<in> set (u_path r)
          then (case splitparams (u_path r) of
                  (p, params) \<Rightarrow> Inr (r\<lparr>u_path := p, u_params := params\<rparr>))
          else Inr r)"

text \<open>
  \<^verbatim>\<open>
  def urlunsplit(components):
      scheme, netloc, url, query, fragment = components
      if netloc or (scheme and scheme in uses_netloc) or url[:2] == '//':
          if url and url[:1] != '/': url = '/' + url
          url = '//' + (netloc or '') + url
      if scheme:
          url = scheme + ':' + url
      if query:
          url = url + '?' + query
      if fragment:
          url = url + '#' + fragment
      return url
  \<close>
  and \<^verbatim>\<open>urlunparse\<close>, which first puts the parameters back behind the path.
\<close>

definition urlunsplit :: "string \<Rightarrow> string \<Rightarrow> string \<Rightarrow> string \<Rightarrow> string \<Rightarrow> string" where
  "urlunsplit scheme netloc url query fragment =
     (let url1 =
            (if netloc \<noteq> [] \<or> (scheme \<noteq> [] \<and> scheme \<in> set uses_netloc) \<or> take 2 url = ''//''
             then ''//'' @ netloc @ (if url \<noteq> [] \<and> take 1 url \<noteq> ''/'' then CHR ''/'' # url else url)
             else url);
          url2 = (if scheme \<noteq> [] then scheme @ '':'' @ url1 else url1);
          url3 = (if query \<noteq> [] then url2 @ ''?'' @ query else url2)
      in if fragment \<noteq> [] then url3 @ ''#'' @ fragment else url3)"

definition urlunparse :: "parse_result \<Rightarrow> string" where
  "urlunparse r =
     urlunsplit (u_scheme r) (u_netloc r)
       (if u_params r \<noteq> [] then u_path r @ '';'' @ u_params r else u_path r)
       (u_query r) (u_fragment r)"

section \<open>utils.clean_url\<close>

definition VRBO_BASE :: string where
  "VRBO_BASE = ''https://www.vrbo.com''"

text \<open>
  \<^verbatim>\<open>
  def clean_url(href):
      try:
          u = urlparse(href)
          base = urlparse(VRBO_BASE)
          scheme = u.scheme or base.scheme
          netloc = u.netloc or base.netloc
          return urlunparse((scheme, netloc, u.path, "", "", ""))
      except Exception:
          return href
  \<close>
\<close>

definition clean_url :: "(string \<Rightarrow> bool) \<Rightarrow> string \<Rightarrow> string" where
  "clean_url ok href =
     (case urlparse ok href of
        Inl e \<Rightarrow> href
      | Inr u \<Rightarrow>
          (case urlparse ok VRBO_BASE of
             Inl e \<Rightarrow> href
           | Inr base \<Rightarrow>
               urlunparse
                 \<lparr>u_scheme = (if u_scheme u \<noteq> [] then u_scheme u else u_scheme base),
                  u_netloc = (if u_netloc u \<noteq> [] then u_netloc u else u_netloc base),
                  u_path = u_path u, u_params = [], u_query = [], u_fragment = []\<rparr>))"

text \<open>
  Notions used to state what \<^verbatim>\<open>clean_url\<close> returns: a well-formed scheme (as
  \<^verbatim>\<open>urlsplit\<close> produces it), and a path with a slash put in front unless it is
  empty or has one already (as \<^verbatim>\<open>urlunsplit\<close> writes it behind a network
  location).
\<close>

definition scheme_wf :: "string \<Rightarrow> bool" where
  "scheme_wf s = (s \<noteq> [] \<and> is_alpha (hd s) \<and> list_all is_scheme_char s \<and> map to_lower s = s)"

definition slashed :: "string \<Rightarrow> string" where
  "slashed p = (if p \<noteq> [] \<and> take 1 p \<noteq> ''/'' then CHR ''/'' # p else p)"

text \<open>A verdict for the library checks on network locations, for concrete inputs.\<close>

definition ok_all :: "string \<Rightarrow> bool" where
  "ok_all netloc = True"

section \<open>utils.build_entry_url\<close>

text \<open>
  Query strings. \<^verbatim>\<open>quote_plus\<close> writes every byte of the UTF-8 form of a text: an
  unreserved character as it is, a space as \<^verbatim>\<open>+\<close>, any other byte as \<^verbatim>\<open>%XX\<close>
  with upper-case hexadecimal digits. \<^verbatim>\<open>urlencode\<close> of a dict of texts joins the
  quoted \<^verbatim>\<open>key=value\<close> pairs with \<^verbatim>\<open>&\<close>, in the order of the dict.
\<close>

definition is_always_safe :: "char \<Rightarrow> bool" where
  "is_always_safe c = (is_alpha c \<or> is_digit c \<or> c \<in> set ''_.-~'')"

definition hex_digit :: "nat \<Rightarrow> char" where
  "hex_digit n = ''0123456789ABCDEF'' ! n"

definition quote_byte :: "char \<Rightarrow> string" where
  "quote_byte c =
     (if is_always_safe c then [c]
      else if c = CHR '' '' then ''+''
      else [CHR ''%'', hex_digit (of_char c div 16), hex_digit (of_char c mod 16)])"

definition quote_plus :: "string \<Rightarrow> string" where
  "quote_plus s = concat (map quote_byte s)"

fun join :: "string \<Rightarrow> string list \<Rightarrow> string" where
  "join sep [] = []"
| "join sep [x] = x"
| "join sep (x # y # ys) = x @ sep @ join sep (y # ys)"

definition urlencode :: "(string \<times> string) list \<Rightarrow> string" where
  "urlencode query = join ''&'' (map (\<lambda>(k, v). quote_plus k @ ''='' @ quote_plus v) query)"

text \<open>
  \<^verbatim>\<open>unquote_to_bytes\<close>: the text is split at every \<^verbatim>\<open>%\<close>; a piece that starts
  with two hexadecimal digits has them replaced by the byte they denote, any other piece
  keeps its \<^verbatim>\<open>%\<close>.
\<close>

fun split_on :: "char \<Rightarrow> string \<Rightarrow> string list" where
  "split_on c [] = [[]]"
| "split_on c (x # xs) =
     (if x = c then [] # split_on c xs
      else (case split_on c xs of [] \<Rightarrow> [[x]] | r # rs \<Rightarrow> (x # r) # rs))"

definition hex_val :: "char \<Rightarrow> nat option" where
  "hex_val c = map_of (zip ''0123456789abcdefABCDEF''
                 [0, 1, 2, 3, 4, 5, 6, 7, 8, 9, 10, 11, 12, 13, 14, 15, 10, 11, 12, 13, 14, 15]) c"

definition unquote_item :: "string \<Rightarrow> string" where
  "unquote_item item =
     (case item of
        a # b # rest \<Rightarrow>
          (case (hex_val a, hex_val b) of
             (Some h, Some l) \<Rightarrow> char_of (16 * h + l) # rest
           | _ \<Rightarrow> CHR ''%'' # item)
      | _ \<Rightarrow> CHR ''%'' # item)"

definition unquote_to_bytes :: "string \<Rightarrow> string" where
  "unquote_to_bytes s =
     (case split_on CHR ''%'' s of
        [] \<Rightarrow> []
      | b # bits \<Rightarrow> b @ concat (map unquote_item bits))"

text \<open>
  \<^verbatim>\<open>unquote\<close>: a text without \<^verbatim>\<open>%\<close> is returned as it is. Otherwise each maximal
  run of ASCII characters is unquoted to bytes and decoded as UTF-8 with replacement of
  invalid sequences, and the characters between the runs are kept. The decoding (in the
  UTF-8 form of its result) is the parameter \<open>dec\<close>. \<^verbatim>\<open>unquote_plus\<close> first turns
  every \<^verbatim>\<open>+\<close> into a space.
\<close>

definition flush_run :: "(string \<Rightarrow> string) \<Rightarrow> string \<Rightarrow> string" where
  "flush_run dec run = (if run = [] then [] else dec (unquote_to_bytes run))"

fun unquote_runs :: "(string \<Rightarrow> string) \<Rightarrow> string \<Rightarrow> string \<Rightarrow> string" where
  "unquote_runs dec run [] = flush_run dec run"
| "unquote_runs dec run (c # cs) =
     (if is_ascii c then unquote_runs dec (run @ [c]) cs
      else flush_run dec run @ c # unquote_runs dec [] cs)"

definition unquote :: "(string \<Rightarrow> string) \<Rightarrow> string \<Rightarrow> string" where
  "unquote dec s = (if CHR ''%'' \<notin> set s then s else unquote_runs dec [] s)"

definition unquote_plus :: "(string \<Rightarrow> string) \<Rightarrow> string \<Rightarrow> string" where
  "unquote_plus dec s = unquote dec (map (\<lambda>c. if c = CHR ''+'' then CHR '' '' else c) s)"

text \<open>
  \<^verbatim>\<open>parse_qsl(qs, keep_blank_values=True)\<close>: the fields between \<^verbatim>\<open>&\<close>, empty
  fields skipped, each cut at its first \<^verbatim>\<open>=\<close> and unquoted.
\<close>

definition parse_qsl :: "(string \<Rightarrow> string) \<Rightarrow> string \<Rightarrow> (string \<times> string) list" where
  "parse_qsl dec qs =
     (if qs = [] then []
      else map (\<lambda>nv. (unquote_plus dec (before_first CHR ''='' nv),
                      unquote_plus dec (after_first CHR ''='' nv)))
             (filter (\<lambda>nv. nv \<noteq> []) (split_on CHR ''&'' qs)))"

text \<open>
  A dict of texts, in insertion order: \<^verbatim>\<open>d[k] = v\<close> rewrites the value of a key that
  is there and appends a new key; \<^verbatim>\<open>d.pop(k, None)\<close> removes the key;
  \<^verbatim>\<open>dict(pairs)\<close> stores the pairs one after the other.
\<close>

definition dict_set :: "string \<Rightarrow> string \<Rightarrow> (string \<times> string) list \<Rightarrow> (string \<times> string) list" where
  "dict_set k v d =
     (if k \<in> fst ` set d then map (\<lambda>(k', v'). if k' = k then (k', v) else (k', v')) d
      else d @ [(k, v)])"

definition dict_pop :: "string \<Rightarrow> (string \<times> string) list \<Rightarrow> (string \<times> string) list" where
  "dict_pop k d = filter (\<lambda>(k', v'). k' \<noteq> k) d"

definition dict_of :: "(string \<times> string) list \<Rightarrow> (string \<times> string) list" where
  "dict_of pairs = foldl (\<lambda>d (k, v). dict_set k v d) [] pairs"

text \<open>
  \<^verbatim>\<open>
  def set_param(keys, value):
      for key in keys:
          if value:
              query[key] = value
          else:
              query.pop(key, None)
  \<close>
\<close>

fun set_param :: "string list \<Rightarrow> string option \<Rightarrow> (string \<times> string) list \<Rightarrow> (string \<times> string) list" where
  "set_param [] val query = query"
| "set_param (key # keys) val query =
     set_param keys val
       (case val of
          None \<Rightarrow> dict_pop key query
        | Some v \<Rightarrow> if v \<noteq> [] then dict_set key v query else dict_pop key query)"

text \<open>
  The first branch of \<^verbatim>\<open>build_entry_url\<close>, lines 54 to 75 of \<^verbatim>\<open>utils.py\<close>: the
  dict built from the query of the parsed search URL and the config.
  \<^verbatim>\<open>
  query = dict(parse_qsl(parsed.query, keep_blank_values=True))
  set_param(["checkIn", "startDate", "d1"], city.checkin)
  set_param(["checkOut", "endDate", "d2"], city.checkout)
  query["adults"] = str(max(1, city.adults))
  if city.children:
      query["children"] = str(city.children)
  else:
      query.pop("children", None)
  if city.region_id:
      query["regionId"] = str(city.region_id)
  if getattr(city, "sort", None):
      query["sort"] = city.sort
  \<close>
\<close>

definition overlay_query :: "(string \<Rightarrow> string) \<Rightarrow> string \<Rightarrow> citycfg \<Rightarrow> (string \<times> string) list" where
  "overlay_query dec qs city =
     (let q0 = dict_of (parse_qsl dec qs);
          q1 = set_param [''checkIn'', ''startDate'', ''d1''] (checkin city) q0;
          q2 = set_param [''checkOut'', ''endDate'', ''d2''] (checkout city) q1;
          q3 = dict_set ''adults'' (str_int (max 1 (adults city))) q2;
          q4 = (if children city \<noteq> 0 then dict_set ''children'' (str_int (children city)) q3
                else dict_pop ''children'' q3);
          q5 = (case region_id city of
                  None \<Rightarrow> q4
                | Some r \<Rightarrow> if r \<noteq> [] then dict_set ''regionId'' r q4 else q4)
      in if sort_cfg city \<noteq> [] then dict_set ''sort'' (sort_cfg city) q5 else q5)"

text \<open>
  The second branch, lines 80 to 104: the dict synthesised from the config alone.
  \<^verbatim>\<open>
  dest = city.region_name or city.name or "Colombia"
  query = {}
  query["destination"] = dest
  if city.region_id:
      query["regionId"] = str(city.region_id)
  if getattr(city, "flexibility", None):
      query["flexibility"] = city.flexibility
  if city.checkin:
      query["d1"] = city.checkin
      query["startDate"] = city.checkin
  if city.checkout:
      query["d2"] = city.checkout
      query["endDate"] = city.checkout
  query["adults"] = str(max(1, city.adults))
  if city.children:
      query["children"] = str(city.children)
  if getattr(city, "sort", None):
      query["sort"] = city.sort
  \<close>
\<close>

definition destination :: "citycfg \<Rightarrow> string" where
  "destination city =
     (case py_or (py_or (region_name city) (Some (name city))) (Some ''Colombia'') of
        Some d \<Rightarrow> d
      | None \<Rightarrow> ''Colombia'')"

definition fresh_query :: "citycfg \<Rightarrow> (string \<times> string) list" where
  "fresh_query city =
     (let q0 = dict_set ''destination'' (destination city) [];
          q1 = (case region_id city of
                  None \<Rightarrow> q0
                | Some r \<Rightarrow> if r \<noteq> [] then dict_set ''regionId'' r q0 else q0);
          q2 = (if flexibility city \<noteq> [] then dict_set ''flexibility'' (flexibility city) q1 else q1);
          q3 = (case checkin city of
                  None \<Rightarrow> q2
                | Some ci \<Rightarrow> if ci \<noteq> [] then dict_set ''startDate'' ci (dict_set ''d1'' ci q2) else q2);
          q4 = (case checkout city of
                  None \<Rightarrow> q3
                | Some co \<Rightarrow> if co \<noteq> [] then dict_set ''endDate'' co (dict_set ''d2'' co q3) else q3);
          q5 = dict_set ''adults'' (str_int (max 1 (adults city))) q4;
          q6 = (if children city \<noteq> 0 then dict_set ''children'' (str_int (children city)) q5 else q5)
      in if sort_cfg city \<noteq> [] then dict_set ''sort'' (sort_cfg city) q6 else q6)"

text \<open>
  \<^verbatim>\<open>
  def build_entry_url(city):
      if city.search_url:
          parsed = urlparse(city.search_url)
          ...
          new_query = urlencode(query, doseq=True)
          return urlunparse(parsed._replace(query=new_query))
      ...
      base = f"{VRBO_BASE}/search"
      ...
      new_query = urlencode(query, doseq=True)
      return base + "?" + new_query
  \<close>
  An exception of \<^verbatim>\<open>urlparse\<close> is not caught here.
\<close>

definition build_entry_url :: "(string \<Rightarrow> bool) \<Rightarrow> (string \<Rightarrow> string) \<Rightarrow> citycfg \<Rightarrow> exc + string" where
  "build_entry_url ok dec city =
     (if truthy (search_url city)
      then (case urlparse ok (case search_url city of Some u \<Rightarrow> u | None \<Rightarrow> []) of
              Inl e \<Rightarrow> Inl e
            | Inr parsed \<Rightarrow>
                Inr (urlunparse (parsed\<lparr>u_query := urlencode (overlay_query dec (u_query parsed) city)\<rparr>)))
      else Inr (VRBO_BASE @ ''/search'' @ ''?'' @ urlencode (fresh_query city)))"

text \<open>A decoder for concrete inputs: the identity, which is what the library's is on ASCII.\<close>

definition dec_id :: "string \<Rightarrow> string" where
  "dec_id s = s"

text \<open>
  A dict that starts with the given entries and has other keys behind them. Used to
  state what the overlay keeps of the query it starts from.
\<close>

definition leads_with :: "(string \<times> string) list \<Rightarrow> (string \<times> string) list \<Rightarrow> bool" where
  "leads_with pre d = (\<exists>extra. d = pre @ extra \<and> fst ` set pre \<inter> fst ` set extra = {})"

text \<open>The pairs of a query behind the first, as \<^verbatim>\<open>urlencode\<close> writes them.\<close>

definition amp_pairs :: "(string \<times> string) list \<Rightarrow> string" where
  "amp_pairs query = concat (map (\<lambda>(k, v). ''&'' @ quote_plus k @ ''='' @ quote_plus v) query)"

text \<open>Configs used as concrete inputs below.\<close>

definition cali :: citycfg where
  "cali = \<lparr>name = ''Cali'', region_name = None, region_id = None, search_url = None,
     checkin = None, checkout = None, adults = 2, children = 0, rooms = 1, currency = ''USD'',
     locale_cfg = ''es_CO'', lang = ''es'', nights = 1, sort_cfg = [], flexibility = []\<rparr>"

definition cali_url :: citycfg where
  "cali_url = cali\<lparr>search_url := Some ''https://www.vrbo.com/search?foo=bar&adults=1'', adults := 3\<rparr>"

section \<open>Properties\<close>

subsection \<open>unique_list\<close>

lemma remdups_snoc: "remdups (zs @ [x]) = filter (\<lambda>y. y \<noteq> x) (remdups zs) @ [x]"
  by (induction zs) auto

lemma first_seen_Cons:
  "rev (remdups (rev (x # ys))) = x # rev (remdups (rev (filter (\<lambda>y. y \<noteq> x) ys)))"
  by (simp add: remdups_snoc rev_filter remdups_filter)

lemma unique_loop_subseq:
  "\<exists>ys. unique_loop items seen ordered = ordered @ ys \<and> subseq ys items"
proof (induction items arbitrary: seen ordered)
  case Nil
  show ?case by simp
next
  case (Cons item items)
  show ?case
  proof (cases "truthy item \<and> item \<notin> seen")
    case True
    from Cons.IH [of "insert item seen" "ordered @ [item]"]
    obtain ys where "unique_loop items (insert item seen) (ordered @ [item]) = (ordered @ [item]) @ ys"
      and "subseq ys items" by blast
    with True have "unique_loop (item # items) seen ordered = ordered @ (item # ys)
        \<and> subseq (item # ys) (item # items)" by simp
    then show ?thesis by blast
  next
    case False
    from Cons.IH [of seen ordered]
    obtain ys where "unique_loop items seen ordered = ordered @ ys" and "subseq ys items" by blast
    with False have "unique_loop (item # items) seen ordered = ordered @ ys
        \<and> subseq ys (item # items)" by auto
    then show ?thesis by blast
  qed
qed

lemma unique_loop_eq:
  "unique_loop items seen ordered =
     ordered @ rev (remdups (rev (filter (\<lambda>x. truthy x \<and> x \<notin> seen) items)))"
proof (induction items arbitrary: seen ordered)
  case Nil
  show ?case by simp
next
  case (Cons item items)
  show ?case
  proof (cases "truthy item \<and> item \<notin> seen")
    case True
    have f: "filter (\<lambda>y. y \<noteq> item) (filter (\<lambda>x. truthy x \<and> x \<notin> seen) items)
             = filter (\<lambda>x. truthy x \<and> x \<notin> insert item seen) items"
      by (auto intro: filter_cong)
    have "filter (\<lambda>x. truthy x \<and> x \<notin> seen) (item # items)
            = item # filter (\<lambda>x. truthy x \<and> x \<notin> seen) items"
      using True by simp
    then have "rev (remdups (rev (filter (\<lambda>x. truthy x \<and> x \<notin> seen) (item # items))))
            = item # rev (remdups (rev (filter (\<lambda>x. truthy x \<and> x \<notin> insert item seen) items)))"
      by (simp only: first_seen_Cons f)
    with True Cons.IH [of "insert item seen" "ordered @ [item]"] show ?thesis by simp
  next
    case False
    then have "filter (\<lambda>x. truthy x \<and> x \<notin> seen) (item # items)
            = filter (\<lambda>x. truthy x \<and> x \<notin> seen) items"
      by auto
    with False Cons.IH [of seen ordered] show ?thesis by auto
  qed
qed

text \<open>
  Claim C9. For every input list, \<^verbatim>\<open>unique_list\<close> returns the truthy elements with
  duplicates removed, each kept at its first occurrence and in input order; neither
  \<^verbatim>\<open>None\<close> nor the empty string is ever part of the output.
\<close>

theorem unique_list_first_seen:
  "unique_list items = rev (remdups (rev (filter truthy items)))
   \<and> distinct (unique_list items)
   \<and> set (unique_list items) = {x \<in> set items. truthy x}
   \<and> subseq (unique_list items) items
   \<and> None \<notin> set (unique_list items)
   \<and> Some [] \<notin> set (unique_list items)"
proof -
  have e: "unique_list items = rev (remdups (rev (filter truthy items)))"
    by (simp add: unique_list_def unique_loop_eq)
  have s: "subseq (unique_list items) items"
    using unique_loop_subseq [of items "{}" "[]"] by (auto simp: unique_list_def)
    have d: "distinct (rev (remdups (rev (filter truthy items))))" by simp
  show ?thesis using s d by (auto simp: e truthy_def)
qed

subsection \<open>update_target_status\<close>

lemma length_update_rows: "length (update_rows tid st rows) = length rows"
  by (induction rows) auto

lemma update_rows_absent: "\<forall>r \<in> set rows. t_id r \<noteq> tid \<Longrightarrow> update_rows tid st rows = rows"
  by (induction rows) auto

lemma update_rows_nth:
  "i < length rows \<Longrightarrow>
   update_rows tid st rows ! i =
     (if t_id (rows ! i) = tid \<and> (\<forall>j<i. t_id (rows ! j) \<noteq> tid)
      then (rows ! i)\<lparr>t_status := st\<rparr> else rows ! i)"
proof (induction rows arbitrary: i)
  case Nil
  then show ?case by simp
next
  case (Cons row rows)
  show ?case
  proof (cases i)
    case 0
    then show ?thesis by simp
  next
    case (Suc k)
    with Cons.prems have k: "k < length rows" by simp
    show ?thesis
    proof (cases "t_id row = tid")
      case True
      then have "\<not> (\<forall>j<i. t_id ((row # rows) ! j) \<noteq> tid)"
        using Suc by (auto intro: exI [of _ 0])
      with True Suc show ?thesis by auto
    next
      case False
      have "(\<forall>j<Suc k. t_id ((row # rows) ! j) \<noteq> tid) = (\<forall>j<k. t_id (rows ! j) \<noteq> tid)"
        using False by (auto simp: less_Suc_eq_0_disj)
      with False Suc Cons.IH [OF k] show ?thesis by auto
    qed
  qed
qed

text \<open>
  Claim C10. \<^verbatim>\<open>update_target_status\<close> leaves the results and the id counter alone,
  keeps the number of rows, rewrites only the status of the first row whose id is the
  given one (every other field of that row and every other row stay as they were), and
  returns the store unchanged when no row has the id.
\<close>

theorem update_target_status_frame:
  "results (update_target_status tid st db) = results db
   \<and> next_target_id (update_target_status tid st db) = next_target_id db
   \<and> length (targets (update_target_status tid st db)) = length (targets db)
   \<and> (\<forall>i < length (targets db).
         targets (update_target_status tid st db) ! i =
           (if t_id (targets db ! i) = tid \<and> (\<forall>j<i. t_id (targets db ! j) \<noteq> tid)
            then (targets db ! i)\<lparr>t_status := st\<rparr> else targets db ! i)
         \<and> t_id (targets (update_target_status tid st db) ! i) = t_id (targets db ! i)
         \<and> t_run_id (targets (update_target_status tid st db) ! i) = t_run_id (targets db ! i)
         \<and> t_type (targets (update_target_status tid st db) ! i) = t_type (targets db ! i)
         \<and> t_value (targets (update_target_status tid st db) ! i) = t_value (targets db ! i)
         \<and> t_url (targets (update_target_status tid st db) ! i) = t_url (targets db ! i))
   \<and> ((\<forall>r \<in> set (targets db). t_id r \<noteq> tid) \<longrightarrow> update_target_status tid st db = db)"
  by (simp add: update_target_status_def length_update_rows update_rows_nth update_rows_absent)

theorem update_target_status_frame_witness:
  "targets (update_target_status 2 ''done'' db3) ! 1 = (targets db3 ! 1)\<lparr>t_status := ''done''\<rparr>
   \<and> targets (update_target_status 2 ''done'' db3) ! 0 = targets db3 ! 0
   \<and> targets (update_target_status 2 ''done'' db3) ! 2 = targets db3 ! 2
   \<and> results (update_target_status 2 ''done'' db3) = results db3
   \<and> update_target_status 5 ''done'' db3 = db3"
  using update_target_status_frame [of 2 "''done''" db3] update_target_status_frame [of 5 "''done''" db3]
  by (simp add: db3_def All_less_Suc numeral_3_eq_3 numeral_2_eq_2)

subsection \<open>run_city: deduplication\<close>

lemma add_cards_grows:
  "add_cards rid cards (seen, db, k) = (seen', db', k') \<Longrightarrow>
   \<exists>added. targets db' = targets db @ added \<and> results db' = results db
     \<and> next_target_id db' = next_target_id db + int (length added)
     \<and> distinct (map t_value added) \<and> set (map t_value added) \<inter> seen = {}
     \<and> seen' = seen \<union> set (map t_value added)
     \<and> k' = k + length added
     \<and> (\<forall>t\<in>set added. t_run_id t = rid \<and> t_type t = VRBO_TARGET_TYPE
            \<and> t_status t = ''queued'' \<and> t_value t \<noteq> [])"
proof (induction cards arbitrary: seen db k)
  case Nil
  then show ?case by simp
next
  case (Cons c cards)
  show ?case
  proof (cases "\<exists>clean. c_url c = Some clean \<and> clean \<noteq> [] \<and> clean \<notin> seen")
    case True
    then obtain clean where c: "c_url c = Some clean" "clean \<noteq> []" "clean \<notin> seen" by blast
    define db1 where "db1 = add_target rid VRBO_TARGET_TYPE clean (c_full_url c) db"
    from Cons.prems c have "add_cards rid cards (insert clean seen, db1, k + 1) = (seen', db', k')"
      by (simp add: db1_def)
    from Cons.IH [OF this] obtain added where a:
      "targets db' = targets db1 @ added" "results db' = results db1"
      "next_target_id db' = next_target_id db1 + int (length added)"
      "distinct (map t_value added)" "set (map t_value added) \<inter> insert clean seen = {}"
      "seen' = insert clean seen \<union> set (map t_value added)"
      "k' = k + 1 + length added"
      "\<forall>t\<in>set added. t_run_id t = rid \<and> t_type t = VRBO_TARGET_TYPE
            \<and> t_status t = ''queued'' \<and> t_value t \<noteq> []"
      by blast
    obtain row where row: "targets db1 = targets db @ [row]" "t_value row = clean"
      "t_run_id row = rid" "t_type row = VRBO_TARGET_TYPE" "t_status row = ''queued''"
      "results db1 = results db" "next_target_id db1 = next_target_id db + 1"
      by (simp add: db1_def add_target_def)
    have "targets db' = targets db @ (row # added)" using a(1) row(1) by simp
    moreover have "distinct (map t_value (row # added))" using a(4,5) row(2) by auto
    moreover have "set (map t_value (row # added)) \<inter> seen = {}" using a(5) row(2) c(3) by auto
    moreover have "seen' = seen \<union> set (map t_value (row # added))" using a(6) row(2) by auto
    moreover have "k' = k + length (row # added)" using a(7) by simp
    moreover have "next_target_id db' = next_target_id db + int (length (row # added))"
      using a(3) row(7) by simp
    moreover have "\<forall>t\<in>set (row # added). t_run_id t = rid \<and> t_type t = VRBO_TARGET_TYPE
            \<and> t_status t = ''queued'' \<and> t_value t \<noteq> []"
      using a(8) row c(2) by simp
    moreover have "results db' = results db" using a(2) row(6) by simp
    ultimately show ?thesis by blast
  next
    case False
    with Cons.prems have "add_cards rid cards (seen, db, k) = (seen', db', k')"
      by (auto split: option.splits if_splits)
    from Cons.IH [OF this] show ?thesis .
  qed
qed


lemma grows_refl: "grows rid seen db seen db"
  by (simp add: grows_def)

lemma grows_trans:
  assumes "grows rid seen db seen1 db1" and "grows rid seen1 db1 seen2 db2"
  shows "grows rid seen db seen2 db2"
proof -
  from assms(1) obtain a where a:
    "targets db1 = targets db @ a" "results db1 = results db"
    "next_target_id db1 = next_target_id db + int (length a)"
    "distinct (map t_value a)" "set (map t_value a) \<inter> seen = {}"
    "seen1 = seen \<union> set (map t_value a)"
    "list_all (\<lambda>t. t_run_id t = rid \<and> t_type t = VRBO_TARGET_TYPE
              \<and> t_status t = ''queued'' \<and> t_value t \<noteq> []) a"
    unfolding grows_def by blast
  from assms(2) obtain b where b:
    "targets db2 = targets db1 @ b" "results db2 = results db1"
    "next_target_id db2 = next_target_id db1 + int (length b)"
    "distinct (map t_value b)" "set (map t_value b) \<inter> seen1 = {}"
    "seen2 = seen1 \<union> set (map t_value b)"
    "list_all (\<lambda>t. t_run_id t = rid \<and> t_type t = VRBO_TARGET_TYPE
              \<and> t_status t = ''queued'' \<and> t_value t \<noteq> []) b"
    unfolding grows_def by blast
  have "targets db2 = targets db @ (a @ b)" using a(1) b(1) by simp
  moreover have "results db2 = results db" using a(2) b(2) by simp
  moreover have "next_target_id db2 = next_target_id db + int (length (a @ b))"
    using a(3) b(3) by simp
  moreover have "distinct (map t_value (a @ b))" using a(4,6) b(4,5) by auto
  moreover have "set (map t_value (a @ b)) \<inter> seen = {}" using a(5,6) b(5) by auto
  moreover have "seen2 = seen \<union> set (map t_value (a @ b))" using a(6) b(6) by auto
  moreover have "list_all (\<lambda>t. t_run_id t = rid \<and> t_type t = VRBO_TARGET_TYPE
              \<and> t_status t = ''queued'' \<and> t_value t \<noteq> []) (a @ b)"
    using a(7) b(7) by simp
  ultimately show ?thesis unfolding grows_def by blast
qed

lemma add_cards_grows':
  "add_cards rid cards (seen, db, k) = (seen', db', k') \<Longrightarrow> grows rid seen db seen' db'"
  using add_cards_grows [of rid cards seen db k seen' db' k']
  unfolding grows_def list_all_iff by blast


lemma page_pass_grows:
  "grows rid (s_seen st) (s_db st) (s_seen (step_state (page_pass mp rid obs st)))
     (s_db (step_state (page_pass mp rid obs st)))"
proof (cases "p_cards obs")
  case (Inl e)
  then show ?thesis by (simp add: page_pass_def grows_refl)
next
  case (Inr cards)
  show ?thesis
  proof (cases "cards = []")
    case True
    with Inr show ?thesis by (simp add: page_pass_def grows_refl)
  next
    case False
    obtain seen db k where ac: "add_cards rid cards (s_seen st, s_db st, 0) = (seen, db, k)"
      by (metis prod_cases3)
    from add_cards_grows' [OF ac] have g: "grows rid (s_seen st) (s_db st) seen db" .
    from Inr False ac g show ?thesis
      by (auto simp: page_pass_def Let_def split: sum.splits)
  qed
qed

lemma run_pages_grows:
  "run_pages mp rid obss st = Some (r, st') \<Longrightarrow> grows rid (s_seen st) (s_db st) (s_seen st') (s_db st')"
proof (induction obss arbitrary: st)
  case Nil
  then show ?case by simp
next
  case (Cons obs rest)
  have g: "grows rid (s_seen st) (s_db st) (s_seen (step_state (page_pass mp rid obs st)))
     (s_db (step_state (page_pass mp rid obs st)))" by (rule page_pass_grows)
  show ?case
  proof (cases "page_pass mp rid obs st")
    case (Continue s)
    with Cons.prems have "run_pages mp rid rest s = Some (r, st')" by simp
    from Cons.IH [OF this] g Continue show ?thesis by (auto intro: grows_trans)
  next
    case (Break s)
    with Cons.prems g show ?thesis by auto
  next
    case (Raise e s)
    with Cons.prems g show ?thesis by auto
  qed
qed

text \<open>
  Claim C1, as the code has it. The set \<^verbatim>\<open>seen\<close> is local to one call of
  \<^verbatim>\<open>run_city\<close>: whenever a call ends (by return or by an exception), the rows it
  appended to the store have pairwise different normalized URLs, all are queued rows of
  the run with a non-empty URL, the rows that were there before are untouched and so
  are the results. Nothing relates the rows of two calls of the same run.
\<close>

theorem run_city_no_duplicate_urls:
  assumes "run_city max_pages run_id w db = Some (r, db')"
  shows "take (length (targets db)) (targets db') = targets db
     \<and> distinct (map t_value (drop (length (targets db)) (targets db')))
     \<and> list_all (\<lambda>t. t_run_id t = run_id \<and> t_type t = VRBO_TARGET_TYPE
              \<and> t_status t = ''queued'' \<and> t_value t \<noteq> [])
          (drop (length (targets db)) (targets db'))
     \<and> results db' = results db"
proof -
  have "\<exists>seen'. grows run_id {} db seen' db'"
  proof (cases "entry w")
    case (Inl e)
    with assms have "db' = db" by (simp add: run_city_def)
    then show ?thesis using grows_refl by blast
  next
    case (Inr b)
    with assms obtain st' where
      rp: "run_pages max_pages run_id (pages w) \<lparr>s_seen = {}, s_db = db, s_page_num = 1\<rparr> = Some (r, st')"
      and "db' = s_db st'"
      by (auto simp: run_city_def)
    with run_pages_grows [OF rp] show ?thesis by auto
  qed
  then show ?thesis unfolding grows_def by auto
qed

theorem run_city_no_duplicate_urls_witness:
  "run_city 0 7 site_dup (new_db :: (unit, unit) localdb) =
     Some (None, \<lparr>targets =
        [\<lparr>t_id = 1, t_run_id = 7, t_type = ''vrbo_detail'', t_value = ''a'', t_url = ''a?x=1'', t_status = ''queued''\<rparr>,
         \<lparr>t_id = 2, t_run_id = 7, t_type = ''vrbo_detail'', t_value = ''b'', t_url = ''b?x=1'', t_status = ''queued''\<rparr>,
         \<lparr>t_id = 3, t_run_id = 7, t_type = ''vrbo_detail'', t_value = ''c'', t_url = ''c?x=1'', t_status = ''queued''\<rparr>],
        next_target_id = 4, results = []\<rparr>)
   \<and> distinct (map t_value (drop (length (targets (new_db :: (unit, unit) localdb)))
        (targets (snd (the (run_city 0 7 site_dup (new_db :: (unit, unit) localdb)))))))"
proof -
  have e: "run_city 0 7 site_dup (new_db :: (unit, unit) localdb) =
     Some (None, \<lparr>targets =
        [\<lparr>t_id = 1, t_run_id = 7, t_type = ''vrbo_detail'', t_value = ''a'', t_url = ''a?x=1'', t_status = ''queued''\<rparr>,
         \<lparr>t_id = 2, t_run_id = 7, t_type = ''vrbo_detail'', t_value = ''b'', t_url = ''b?x=1'', t_status = ''queued''\<rparr>,
         \<lparr>t_id = 3, t_run_id = 7, t_type = ''vrbo_detail'', t_value = ''c'', t_url = ''c?x=1'', t_status = ''queued''\<rparr>],
        next_target_id = 4, results = []\<rparr>)"
    by (simp add: run_city_def site_dup_def mk_page_def mk_card_def page_pass_def new_db_def
        add_target_def VRBO_TARGET_TYPE_def py_or_def truthy_def)
  from run_city_no_duplicate_urls [OF e] e show ?thesis by simp
qed

text \<open>
  Two cities of one run whose result pages show the same listing: the store ends with
  two rows of run 7 that share the normalized URL.
\<close>

theorem run_cities_duplicate_counterexample:
  "run_cities 1 7 [site_a, site_a] (new_db :: (unit, unit) localdb) =
     Some (None, \<lparr>targets =
        [\<lparr>t_id = 1, t_run_id = 7, t_type = ''vrbo_detail'', t_value = ''a'', t_url = ''a?x=1'', t_status = ''queued''\<rparr>,
         \<lparr>t_id = 2, t_run_id = 7, t_type = ''vrbo_detail'', t_value = ''a'', t_url = ''a?x=1'', t_status = ''queued''\<rparr>],
        next_target_id = 3, results = []\<rparr>)"
  by (simp add: run_city_def site_a_def mk_page_def mk_card_def page_pass_def new_db_def
        add_target_def VRBO_TARGET_TYPE_def py_or_def truthy_def)

subsection \<open>run_city: pagination\<close>

lemma fresh_urls_iff:
  "u \<in> fresh_urls seen cards \<longleftrightarrow> (\<exists>c \<in> set cards. c_url c = Some u) \<and> u \<noteq> [] \<and> u \<notin> seen"
  by (force simp: fresh_urls_def List.map_filter_def)

lemma fresh_urls_Nil [simp]: "fresh_urls seen [] = {}"
  by (simp add: fresh_urls_def List.map_filter_def)

lemma finite_fresh_urls [simp]: "finite (fresh_urls seen cards)"
  by (simp add: fresh_urls_def)

lemma add_cards_seen:
  "add_cards rid cards (seen, db, k) = (seen', db', k') \<Longrightarrow> seen' = seen \<union> fresh_urls seen cards"
proof (induction cards arbitrary: seen db k)
  case Nil
  then show ?case by simp
next
  case (Cons c cards)
  show ?case
  proof (cases "\<exists>clean. c_url c = Some clean \<and> clean \<noteq> [] \<and> clean \<notin> seen")
    case True
    then obtain clean where c: "c_url c = Some clean" "clean \<noteq> []" "clean \<notin> seen" by blast
    with Cons.prems have "add_cards rid cards (insert clean seen,
        add_target rid VRBO_TARGET_TYPE clean (c_full_url c) db, k + 1) = (seen', db', k')"
      by simp
    from Cons.IH [OF this] have "seen' = insert clean seen \<union> fresh_urls (insert clean seen) cards" .
    also have "\<dots> = seen \<union> fresh_urls seen (c # cards)"
      using c by (auto simp: fresh_urls_iff)
    finally show ?thesis .
  next
    case False
    with Cons.prems have "add_cards rid cards (seen, db, k) = (seen', db', k')"
      by (auto split: option.splits if_splits)
    from Cons.IH [OF this] have "seen' = seen \<union> fresh_urls seen cards" .
    also have "\<dots> = seen \<union> fresh_urls seen (c # cards)"
      using False by (auto simp: fresh_urls_iff)
    finally show ?thesis .
  qed
qed

lemma add_cards_count:
  assumes "add_cards rid cards (seen, db, k) = (seen', db', k')"
  shows "k' = k + card (fresh_urls seen cards)"
    and "length (targets db') = length (targets db) + card (fresh_urls seen cards)"
proof -
  from add_cards_grows [OF assms] obtain added where a:
    "targets db' = targets db @ added" "distinct (map t_value added)"
    "set (map t_value added) \<inter> seen = {}" "seen' = seen \<union> set (map t_value added)"
    "k' = k + length added" by blast
  have "seen' = seen \<union> fresh_urls seen cards" by (rule add_cards_seen [OF assms])
  moreover have "fresh_urls seen cards \<inter> seen = {}" by (auto simp: fresh_urls_iff)
  ultimately have "set (map t_value added) = fresh_urls seen cards" using a(3,4) by blast
  then have "card (fresh_urls seen cards) = length added"
    using a(2) distinct_card [of "map t_value added"] by simp
  with a show "k' = k + card (fresh_urls seen cards)"
    and "length (targets db') = length (targets db) + card (fresh_urls seen cards)" by simp_all
qed

lemma page_pass_stop:
  assumes "p_cards obs = Inr cards" and "p_next obs = Inr clicked"
  shows "is_Break (page_pass mp rid obs st) \<longleftrightarrow>
           (cards = [] \<and> \<not> p_blocked obs)
         \<or> (cards \<noteq> [] \<and>
              (length (targets (s_db (step_state (page_pass mp rid obs st)))) = length (targets (s_db st))
               \<or> (mp > 0 \<and> s_page_num st \<ge> mp) \<or> \<not> clicked))"
proof (cases "cards = []")
  case True
  with assms show ?thesis by (simp add: page_pass_def)
next
  case False
  obtain seen db k where ac: "add_cards rid cards (s_seen st, s_db st, 0) = (seen, db, k)"
    by (metis prod_cases3)
  from add_cards_count [OF ac] have k: "k = card (fresh_urls (s_seen st) cards)"
    and l: "length (targets db) = length (targets (s_db st)) + k" by simp_all
  from assms False ac l show ?thesis
    by (auto simp: page_pass_def Let_def)
qed

lemma page_pass_retry:
  "p_cards obs = Inr [] \<Longrightarrow> p_blocked obs \<Longrightarrow> page_pass mp rid obs st = Continue st"
  by (simp add: page_pass_def)

lemma page_pass_block_check:
  "p_cards obs = Inr cards \<Longrightarrow> cards \<noteq> [] \<Longrightarrow>
   page_pass mp rid (obs\<lparr>p_blocked := b\<rparr>) st = page_pass mp rid obs st"
  by (auto simp: page_pass_def Let_def split: prod.splits)

lemma scenario_B:
  assumes p1: "p_cards p1 = Inr cards1" "p_next p1 = Inr True"
    and n: "card (fresh_urls {} cards1) = n" "0 < n"
    and p2: "p_cards p2 = Inr cards2" "fresh_urls (fresh_urls {} cards1) cards2 = {}"
      "cards2 \<noteq> [] \<or> \<not> p_blocked p2"
    and mp: "mp \<le> 0 \<or> 2 \<le> mp"
  shows "\<exists>st'. run_pages mp rid (p1 # p2 # rest) \<lparr>s_seen = {}, s_db = db, s_page_num = 1\<rparr> = Some (None, st')
      \<and> s_page_num st' = 2
      \<and> take (length (targets db)) (targets (s_db st')) = targets db
      \<and> length (targets (s_db st')) = length (targets db) + n
      \<and> list_all (\<lambda>t. t_status t = ''queued'' \<and> t_run_id t = rid)
           (drop (length (targets db)) (targets (s_db st')))"
proof -
  obtain seen1 db1 k1 where ac1: "add_cards rid cards1 ({}, db, 0) = (seen1, db1, k1)"
    by (metis prod_cases3)
  from add_cards_count [OF ac1] n have k1: "k1 = n"
    and l1: "length (targets db1) = length (targets db) + n" by simp_all
  from add_cards_seen [OF ac1] have s1: "seen1 = fresh_urls {} cards1" by simp
  from add_cards_grows' [OF ac1] have g1: "grows rid {} db seen1 db1" .
  from n have ne1: "cards1 \<noteq> []" by auto
  define st1 where "st1 = \<lparr>s_seen = seen1, s_db = db1, s_page_num = 2\<rparr>"
  have pp1: "page_pass mp rid p1 \<lparr>s_seen = {}, s_db = db, s_page_num = 1\<rparr> = Continue st1"
    using p1 ne1 ac1 k1 n(2) mp by (auto simp: page_pass_def st1_def)
  have pp2: "page_pass mp rid p2 st1 = Break st1"
  proof (cases "cards2 = []")
    case True
    with p2 show ?thesis by (simp add: page_pass_def)
  next
    case False
    obtain seen2 db2 k2 where ac2: "add_cards rid cards2 (seen1, db1, 0) = (seen2, db2, k2)"
      by (metis prod_cases3)
    from add_cards_count [OF ac2] p2(2) s1 have k2: "k2 = 0" by simp
    from add_cards_seen [OF ac2] p2(2) s1 have s2: "seen2 = seen1" by simp
    from add_cards_grows [OF ac2] k2 have "targets db2 = targets db1"
      "results db2 = results db1" "next_target_id db2 = next_target_id db1" by auto
    then have "db2 = db1" by simp
    with p2(1) False ac2 k2 s2 show ?thesis
      by (simp add: page_pass_def st1_def)
  qed
  have "run_pages mp rid (p1 # p2 # rest) \<lparr>s_seen = {}, s_db = db, s_page_num = 1\<rparr> = Some (None, st1)"
    using pp1 pp2 by simp
  moreover have "s_page_num st1 = 2" by (simp add: st1_def)
  moreover from g1 l1 have "take (length (targets db)) (targets (s_db st1)) = targets db"
    "length (targets (s_db st1)) = length (targets db) + n"
    "list_all (\<lambda>t. t_status t = ''queued'' \<and> t_run_id t = rid)
           (drop (length (targets db)) (targets (s_db st1)))"
    unfolding grows_def by (auto simp: st1_def list_all_iff)
  ultimately show ?thesis by blast
qed


text \<open>
  Claim C2, as the code has it. For a pass of the loop from which no exception escapes:
  the loop stops after the pass exactly when no card was extracted and the page is not a
  block page, or cards were extracted and either the pass added no target, or the page
  limit is positive and reached, or \<^verbatim>\<open>click_next\<close> returned false. With no card
  and a block page the pass is repeated in the same state. With at least one card the
  block check has no part in the pass. Scenario B: if page 1 yields \<open>n > 0\<close> new URLs and
  its next control is clicked, the page limit does not bind before page 2, and page 2
  yields no new URL (and, when it shows no card at all, is not a block page), then the
  loop returns after page 2 with exactly \<open>n\<close> rows appended, all queued.
\<close>

theorem run_city_pagination:
  "(\<forall>cards clicked. p_cards obs = Inr cards \<and> p_next obs = Inr clicked \<longrightarrow>
      (is_Break (page_pass mp rid obs st) \<longleftrightarrow>
           (cards = [] \<and> \<not> p_blocked obs)
         \<or> (cards \<noteq> [] \<and>
              (length (targets (s_db (step_state (page_pass mp rid obs st)))) = length (targets (s_db st))
               \<or> (mp > 0 \<and> s_page_num st \<ge> mp) \<or> \<not> clicked)))
      \<and> (cards = [] \<and> p_blocked obs \<longrightarrow> page_pass mp rid obs st = Continue st)
      \<and> (cards \<noteq> [] \<longrightarrow> page_pass mp rid (obs\<lparr>p_blocked := b\<rparr>) st = page_pass mp rid obs st))
   \<and> (\<forall>cards1 cards2 n.
        p_cards p1 = Inr cards1 \<and> p_next p1 = Inr True
        \<and> card (fresh_urls {} cards1) = n \<and> 0 < n
        \<and> p_cards p2 = Inr cards2 \<and> fresh_urls (fresh_urls {} cards1) cards2 = {}
        \<and> (cards2 \<noteq> [] \<or> \<not> p_blocked p2) \<and> (mp \<le> 0 \<or> 2 \<le> mp) \<longrightarrow>
        (\<exists>st'. run_pages mp rid (p1 # p2 # rest) \<lparr>s_seen = {}, s_db = db, s_page_num = 1\<rparr> = Some (None, st')
           \<and> run_city mp rid \<lparr>entry = Inr b0, pages = p1 # p2 # rest\<rparr> db = Some (None, s_db st')
           \<and> s_page_num st' = 2
           \<and> take (length (targets db)) (targets (s_db st')) = targets db
           \<and> length (targets (s_db st')) = length (targets db) + n
           \<and> list_all (\<lambda>t. t_status t = ''queued'' \<and> t_run_id t = rid)
                (drop (length (targets db)) (targets (s_db st')))))"
proof -
  have a: "is_Break (page_pass mp rid obs st) \<longleftrightarrow>
           (cards = [] \<and> \<not> p_blocked obs)
         \<or> (cards \<noteq> [] \<and>
              (length (targets (s_db (step_state (page_pass mp rid obs st)))) = length (targets (s_db st))
               \<or> (mp > 0 \<and> s_page_num st \<ge> mp) \<or> \<not> clicked))"
    if "p_cards obs = Inr cards" "p_next obs = Inr clicked" for cards clicked
    using that by (rule page_pass_stop)
  have b: "page_pass mp rid obs st = Continue st"
    if "p_cards obs = Inr cards" "cards = []" "p_blocked obs" for cards
    using that page_pass_retry [of obs mp rid st] by simp
  have c: "page_pass mp rid (obs\<lparr>p_blocked := b\<rparr>) st = page_pass mp rid obs st"
    if "p_cards obs = Inr cards" "cards \<noteq> []" for cards
    using that by (rule page_pass_block_check)
  have d: "\<exists>st'. run_pages mp rid (p1 # p2 # rest) \<lparr>s_seen = {}, s_db = db, s_page_num = 1\<rparr> = Some (None, st')
           \<and> run_city mp rid \<lparr>entry = Inr b0, pages = p1 # p2 # rest\<rparr> db = Some (None, s_db st')
           \<and> s_page_num st' = 2
           \<and> take (length (targets db)) (targets (s_db st')) = targets db
           \<and> length (targets (s_db st')) = length (targets db) + n
           \<and> list_all (\<lambda>t. t_status t = ''queued'' \<and> t_run_id t = rid)
                (drop (length (targets db)) (targets (s_db st')))"
    if "p_cards p1 = Inr cards1" "p_next p1 = Inr True"
      "card (fresh_urls {} cards1) = n" "0 < n"
      "p_cards p2 = Inr cards2" "fresh_urls (fresh_urls {} cards1) cards2 = {}"
      "cards2 \<noteq> [] \<or> \<not> p_blocked p2" "mp \<le> 0 \<or> 2 \<le> mp" for cards1 cards2 n
  proof -
    from scenario_B [OF that, of rid rest db] obtain st' where
      s: "run_pages mp rid (p1 # p2 # rest) \<lparr>s_seen = {}, s_db = db, s_page_num = 1\<rparr> = Some (None, st')"
      "s_page_num st' = 2"
      "take (length (targets db)) (targets (s_db st')) = targets db"
      "length (targets (s_db st')) = length (targets db) + n"
      "list_all (\<lambda>t. t_status t = ''queued'' \<and> t_run_id t = rid)
           (drop (length (targets db)) (targets (s_db st')))" by blast
    from s(1) have "run_city mp rid \<lparr>entry = Inr b0, pages = p1 # p2 # rest\<rparr> db = Some (None, s_db st')"
      by (simp add: run_city_def)
    with s show ?thesis by blast
  qed
  show ?thesis using a b c d by blast
qed

lemma fresh_five: "fresh_urls {} [mk_card ''a'', mk_card ''b'', mk_card ''c'', mk_card ''d'', mk_card ''e''] = {''a'', ''b'', ''c'', ''d'', ''e''}"
  by (auto simp: fresh_urls_def List.map_filter_def mk_card_def)

theorem run_city_pagination_witness:
  "(\<exists>st'. run_pages 0 7 (page_five # page_old # []) \<lparr>s_seen = {}, s_db = (new_db :: (unit, unit) localdb), s_page_num = 1\<rparr>
        = Some (None, st')
      \<and> run_city 0 7 \<lparr>entry = Inr False, pages = page_five # page_old # []\<rparr> (new_db :: (unit, unit) localdb)
          = Some (None, s_db st')
      \<and> s_page_num st' = 2
      \<and> take (length (targets (new_db :: (unit, unit) localdb))) (targets (s_db st')) = targets (new_db :: (unit, unit) localdb)
      \<and> length (targets (s_db st')) = length (targets (new_db :: (unit, unit) localdb)) + 5
      \<and> list_all (\<lambda>t. t_status t = ''queued'' \<and> t_run_id t = 7)
           (drop (length (targets (new_db :: (unit, unit) localdb))) (targets (s_db st'))))
   \<and> page_pass 0 7 page_blocked st0 = Continue st0
   \<and> is_Break (page_pass 0 7 page_old (st0\<lparr>s_seen := {''a'', ''b''}\<rparr>))"
proof -
  note t = run_city_pagination [of page_blocked 0 7 st0 True page_five page_old "[]"
      "new_db :: (unit, unit) localdb" False]
  note u = run_city_pagination [of page_old 0 7 "st0\<lparr>s_seen := {''a'', ''b''}\<rparr>" True page_five page_old "[]"
      "new_db :: (unit, unit) localdb" False]
  have c5: "card (fresh_urls {} [mk_card ''a'', mk_card ''b'', mk_card ''c'', mk_card ''d'', mk_card ''e'']) = 5"
    by (simp add: fresh_five)
  have f0: "fresh_urls (fresh_urls {} [mk_card ''a'', mk_card ''b'', mk_card ''c'', mk_card ''d'', mk_card ''e''])
      [mk_card ''b'', mk_card ''a''] = {}"
    by (auto simp: fresh_five fresh_urls_iff mk_card_def)
  have pre: "p_cards page_five = Inr [mk_card ''a'', mk_card ''b'', mk_card ''c'', mk_card ''d'', mk_card ''e'']
        \<and> p_next page_five = Inr True
        \<and> card (fresh_urls {} [mk_card ''a'', mk_card ''b'', mk_card ''c'', mk_card ''d'', mk_card ''e'']) = 5
        \<and> 0 < (5::nat)
        \<and> p_cards page_old = Inr [mk_card ''b'', mk_card ''a'']
        \<and> fresh_urls (fresh_urls {} [mk_card ''a'', mk_card ''b'', mk_card ''c'', mk_card ''d'', mk_card ''e''])
             [mk_card ''b'', mk_card ''a''] = {}
        \<and> ([mk_card ''b'', mk_card ''a''] \<noteq> [] \<or> \<not> p_blocked page_old) \<and> ((0::int) \<le> 0 \<or> 2 \<le> (0::int))"
    using c5 f0 by (simp add: page_five_def page_old_def mk_page_def)
  from t have "\<forall>cards1 cards2 n.
        p_cards page_five = Inr cards1 \<and> p_next page_five = Inr True
        \<and> card (fresh_urls {} cards1) = n \<and> 0 < n
        \<and> p_cards page_old = Inr cards2 \<and> fresh_urls (fresh_urls {} cards1) cards2 = {}
        \<and> (cards2 \<noteq> [] \<or> \<not> p_blocked page_old) \<and> ((0::int) \<le> 0 \<or> 2 \<le> (0::int)) \<longrightarrow>
        (\<exists>st'. run_pages 0 7 (page_five # page_old # []) \<lparr>s_seen = {}, s_db = (new_db :: (unit, unit) localdb), s_page_num = 1\<rparr> = Some (None, st')
           \<and> run_city 0 7 \<lparr>entry = Inr False, pages = page_five # page_old # []\<rparr> (new_db :: (unit, unit) localdb) = Some (None, s_db st')
           \<and> s_page_num st' = 2
           \<and> take (length (targets (new_db :: (unit, unit) localdb))) (targets (s_db st')) = targets (new_db :: (unit, unit) localdb)
           \<and> length (targets (s_db st')) = length (targets (new_db :: (unit, unit) localdb)) + n
           \<and> list_all (\<lambda>t. t_status t = ''queued'' \<and> t_run_id t = 7)
                (drop (length (targets (new_db :: (unit, unit) localdb))) (targets (s_db st'))))"
    by (rule conjunct2)
  from this [rule_format, OF pre] have one: "\<exists>st'. run_pages 0 7 (page_five # page_old # []) \<lparr>s_seen = {}, s_db = (new_db :: (unit, unit) localdb), s_page_num = 1\<rparr> = Some (None, st')
           \<and> run_city 0 7 \<lparr>entry = Inr False, pages = page_five # page_old # []\<rparr> (new_db :: (unit, unit) localdb) = Some (None, s_db st')
           \<and> s_page_num st' = 2
           \<and> take (length (targets (new_db :: (unit, unit) localdb))) (targets (s_db st')) = targets (new_db :: (unit, unit) localdb)
           \<and> length (targets (s_db st')) = length (targets (new_db :: (unit, unit) localdb)) + 5
           \<and> list_all (\<lambda>t. t_status t = ''queued'' \<and> t_run_id t = 7)
                (drop (length (targets (new_db :: (unit, unit) localdb))) (targets (s_db st')))" .
  have pb: "p_cards page_blocked = Inr [] \<and> p_next page_blocked = Inr True" "p_blocked page_blocked"
    by (simp_all add: page_blocked_def mk_page_def)
  from t pb have two: "page_pass 0 7 page_blocked st0 = Continue st0" by blast
  have po: "p_cards page_old = Inr [mk_card ''b'', mk_card ''a''] \<and> p_next page_old = Inr True"
    by (simp add: page_old_def mk_page_def)
  have same: "length (targets (s_db (step_state (page_pass 0 7 page_old (st0\<lparr>s_seen := {''a'', ''b''}\<rparr>)))))
      = length (targets (s_db (st0\<lparr>s_seen := {''a'', ''b''}\<rparr>)))"
    by (simp add: page_old_def mk_page_def mk_card_def page_pass_def st0_def)
  from u po same have three: "is_Break (page_pass 0 7 page_old (st0\<lparr>s_seen := {''a'', ''b''}\<rparr>))"
    by blast
  from one two three show ?thesis by blast
qed

text \<open>
  A pass over a block page without cards adds no target and does not stop the loop; a
  pass over a block page whose cards are all known stops the loop with no block check,
  where the same page without cards would have waited and repeated.
\<close>

theorem run_city_pagination_counterexample:
  "length (targets (s_db (step_state (page_pass 0 7 page_blocked st0)))) = length (targets (s_db st0))
   \<and> \<not> is_Break (page_pass 0 7 page_blocked st0)
   \<and> page_pass 0 7 page_old (st0\<lparr>s_seen := {''a'', ''b''}\<rparr>) = Break (st0\<lparr>s_seen := {''a'', ''b''}\<rparr>)
   \<and> page_pass 0 7 (page_old\<lparr>p_cards := Inr []\<rparr>) (st0\<lparr>s_seen := {''a'', ''b''}\<rparr>)
        = Continue (st0\<lparr>s_seen := {''a'', ''b''}\<rparr>)"
  by (simp add: page_blocked_def page_old_def mk_page_def mk_card_def page_pass_def st0_def)

subsection \<open>process_detail_targets\<close>

lemma update_rows_map:
  "distinct (map t_id rows) \<Longrightarrow>
   update_rows tid st rows = map (\<lambda>t. if t_id t = tid then t\<lparr>t_status := st\<rparr> else t) rows"
proof (induction rows)
  case Nil
  show ?case by simp
next
  case (Cons row rows)
  show ?case
  proof (cases "t_id row = tid")
    case True
    with Cons.prems have "\<forall>t \<in> set rows. t_id t \<noteq> tid" by (auto simp: image_iff)
    then have "map (\<lambda>t. if t_id t = tid then t\<lparr>t_status := st\<rparr> else t) rows = rows"
      by (simp add: map_idI)
    with True show ?thesis by simp
  next
    case False
    with Cons show ?thesis by simp
  qed
qed

lemma map_filter_Cons:
  "List.map_filter f (x # xs) = (case f x of None \<Rightarrow> List.map_filter f xs | Some y \<Rightarrow> y # List.map_filter f xs)"
  by (simp add: List.map_filter_def split: option.splits)

lemma map_filter_Nil: "List.map_filter f [] = []"
  by (simp add: List.map_filter_def)

text \<open>One pass of the loop body, as a change of the store.\<close>

lemma process_rows_step:
  "process_rows web rid (row # rows) (db, vs) =
     process_rows web rid rows
       (update_target_status (t_id row) (status_of (scrape_detail_page (web row)))
          (db\<lparr>results := results db @ (case rental_of web row of None \<Rightarrow> [] | Some r \<Rightarrow> [r])\<rparr>),
        vs @ [t_value row])"
  by (simp add: status_of_def rental_of_def save_rental_def Let_def
      split: sum.splits option.splits prod.splits)

lemma process_rows_char:
  "distinct (map t_id (targets db)) \<Longrightarrow> set rows \<subseteq> set (targets db) \<Longrightarrow> distinct rows \<Longrightarrow>
   process_rows web rid rows (db, vs) = (db', vs') \<Longrightarrow>
   targets db' = map (\<lambda>t. if t \<in> set rows then t\<lparr>t_status := status_of (scrape_detail_page (web t))\<rparr> else t)
                   (targets db)
   \<and> results db' = results db @ List.map_filter (rental_of web) rows
   \<and> vs' = vs @ map t_value rows
   \<and> next_target_id db' = next_target_id db"
proof (induction rows arbitrary: db vs)
  case Nil
  then show ?case by (simp add: map_filter_Nil)
next
  case (Cons row rows)
  define s where "s = status_of (scrape_detail_page (web row))"
  define db1 where "db1 = update_target_status (t_id row) s
          (db\<lparr>results := results db @ (case rental_of web row of None \<Rightarrow> [] | Some r \<Rightarrow> [r])\<rparr>)"
  have inj: "inj_on t_id (set (targets db))"
    using Cons.prems(1) by (simp add: distinct_map)
  have row_in: "row \<in> set (targets db)" using Cons.prems(2) by simp
  have same_id: "t_id t = t_id row \<longleftrightarrow> t = row" if "t \<in> set (targets db)" for t
    using inj row_in that by (auto dest: inj_onD)
  have t1: "targets db1 = map (\<lambda>t. if t = row then t\<lparr>t_status := s\<rparr> else t) (targets db)"
    using Cons.prems(1) same_id
    by (simp add: db1_def update_target_status_def update_rows_map cong: map_cong)
  have ids1: "map t_id (targets db1) = map t_id (targets db)"
    by (simp add: t1 comp_def cong: map_cong)
  have d1: "distinct (map t_id (targets db1))" using Cons.prems(1) ids1 by simp
  have notin: "row \<notin> set rows" using Cons.prems(3) by simp
  have sub1: "set rows \<subseteq> set (targets db1)"
  proof
    fix r assume r: "r \<in> set rows"
    then have "r \<in> set (targets db)" "r \<noteq> row" using Cons.prems(2) notin by auto
    then show "r \<in> set (targets db1)" by (force simp: t1)
  qed
  have dr: "distinct rows" using Cons.prems(3) by simp
  have run: "process_rows web rid rows (db1, vs @ [t_value row]) = (db', vs')"
    using Cons.prems(4) by (simp only: process_rows_step db1_def s_def)
  from Cons.IH [OF d1 sub1 dr run] have ih:
    "targets db' = map (\<lambda>t. if t \<in> set rows then t\<lparr>t_status := status_of (scrape_detail_page (web t))\<rparr> else t)
                   (targets db1)"
    "results db' = results db1 @ List.map_filter (rental_of web) rows"
    "vs' = (vs @ [t_value row]) @ map t_value rows"
    "next_target_id db' = next_target_id db1" by simp_all
  have upd_notin: "row\<lparr>t_status := s\<rparr> \<notin> set rows"
  proof
    assume a: "row\<lparr>t_status := s\<rparr> \<in> set rows"
    then have "row\<lparr>t_status := s\<rparr> \<in> set (targets db)" using Cons.prems(2) by auto
    from same_id [OF this] have "row\<lparr>t_status := s\<rparr> = row" by simp
    with a notin show False by simp
  qed
  have "targets db' = map (\<lambda>t. if t \<in> set (row # rows)
        then t\<lparr>t_status := status_of (scrape_detail_page (web t))\<rparr> else t) (targets db)"
    unfolding ih(1) t1 using upd_notin by (auto simp: s_def)
  moreover have "results db' = results db @ List.map_filter (rental_of web) (row # rows)"
    unfolding ih(2) by (simp add: db1_def update_target_status_def map_filter_Cons split: option.splits)
  moreover have "vs' = vs @ map t_value (row # rows)" using ih(3) by simp
  moreover have "next_target_id db' = next_target_id db"
    using ih(4) by (simp add: db1_def update_target_status_def)
  ultimately show ?case by blast
qed

lemma detail_targets_sub: "set (detail_targets md rid db) \<subseteq> set (targets db)"
  by (auto simp: detail_targets_def list_targets_def Let_def dest: in_set_takeD)

lemma detail_targets_distinct:
  "distinct (map t_id (targets db)) \<Longrightarrow> distinct (detail_targets md rid db)"
proof -
  assume "distinct (map t_id (targets db))"
  then have "distinct (targets db)" by (rule distinct_map [THEN iffD1, THEN conjunct1])
  then show ?thesis
    by (simp add: detail_targets_def list_targets_def Let_def)
qed

lemma process_detail_targets_char:
  assumes "distinct (map t_id (targets db))"
    and "process_detail_targets web md rid db = (db', visits)"
  shows "targets db' = map (\<lambda>t. if t \<in> set (detail_targets md rid db)
              then t\<lparr>t_status := status_of (scrape_detail_page (web t))\<rparr> else t) (targets db)
   \<and> results db' = results db @ List.map_filter (rental_of web) (detail_targets md rid db)
   \<and> visits = map t_value (detail_targets md rid db)
   \<and> next_target_id db' = next_target_id db"
proof (cases "detail_targets md rid db = []")
  case True
  with assms(2) show ?thesis by (simp add: process_detail_targets_def map_filter_Nil)
next
  case False
  with assms(2) have "process_rows web rid (detail_targets md rid db) (db, []) = (db', visits)"
    by (simp add: process_detail_targets_def)
  from process_rows_char [OF assms(1) detail_targets_sub detail_targets_distinct [OF assms(1)] this]
  show ?thesis by simp
qed


lemma ids_ok_new_db: "ids_ok new_db"
  by (simp add: ids_ok_def new_db_def)

lemma ids_ok_add_target: "ids_ok db \<Longrightarrow> ids_ok (add_target rid typ u fu db)"
  by (fastforce simp: ids_ok_def add_target_def list_all_iff)

lemma ids_ok_add_cards:
  "ids_ok db \<Longrightarrow> add_cards rid cards (seen, db, k) = (seen', db', k') \<Longrightarrow> ids_ok db'"
proof (induction cards arbitrary: seen db k)
  case Nil
  then show ?case by simp
next
  case (Cons c cards)
  show ?case
  proof (cases "\<exists>clean. c_url c = Some clean \<and> clean \<noteq> [] \<and> clean \<notin> seen")
    case True
    then obtain clean where c: "c_url c = Some clean" "clean \<noteq> []" "clean \<notin> seen" by blast
    with Cons.prems(2) have "add_cards rid cards (insert clean seen,
        add_target rid VRBO_TARGET_TYPE clean (c_full_url c) db, k + 1) = (seen', db', k')"
      by simp
    from Cons.IH [OF ids_ok_add_target [OF Cons.prems(1)] this] show ?thesis .
  next
    case False
    with Cons.prems(2) have "add_cards rid cards (seen, db, k) = (seen', db', k')"
      by (auto split: option.splits if_splits)
    from Cons.IH [OF Cons.prems(1) this] show ?thesis .
  qed
qed

lemma ids_ok_page_pass:
  assumes "ids_ok (s_db st)"
  shows "ids_ok (s_db (step_state (page_pass mp rid obs st)))"
proof (cases "p_cards obs")
  case (Inl e)
  with assms show ?thesis by (simp add: page_pass_def)
next
  case (Inr cards)
  obtain seen db k where ac: "add_cards rid cards (s_seen st, s_db st, 0) = (seen, db, k)"
    by (metis prod_cases3)
  from ids_ok_add_cards [OF assms ac] have "ids_ok db" .
  with Inr ac assms show ?thesis
    by (auto simp: page_pass_def Let_def split: sum.splits)
qed

lemma ids_ok_run_pages:
  "ids_ok (s_db st) \<Longrightarrow> run_pages mp rid obss st = Some (r, st') \<Longrightarrow> ids_ok (s_db st')"
proof (induction obss arbitrary: st)
  case Nil
  then show ?case by simp
next
  case (Cons obs rest)
  from ids_ok_page_pass [OF Cons.prems(1), of mp rid obs]
  have g: "ids_ok (s_db (step_state (page_pass mp rid obs st)))" .
  show ?case
  proof (cases "page_pass mp rid obs st")
    case (Continue s)
    with Cons.prems(2) have "run_pages mp rid rest s = Some (r, st')" by simp
    moreover from g Continue have "ids_ok (s_db s)" by simp
    ultimately show ?thesis by (rule Cons.IH [rotated])
  next
    case (Break s)
    with Cons.prems(2) g show ?thesis by auto
  next
    case (Raise e s)
    with Cons.prems(2) g show ?thesis by auto
  qed
qed

lemma ids_ok_run_city:
  "ids_ok db \<Longrightarrow> run_city mp rid w db = Some (r, db') \<Longrightarrow> ids_ok db'"
  by (cases "entry w") (auto simp: run_city_def dest: ids_ok_run_pages [rotated])

lemma ids_ok_run_cities:
  "ids_ok db \<Longrightarrow> run_cities mp rid ws db = Some (r, db') \<Longrightarrow> ids_ok db'"
proof (induction ws arbitrary: db)
  case Nil
  then show ?case by simp
next
  case (Cons w ws)
  show ?case
  proof (cases "run_city mp rid w db")
    case None
    with Cons.prems(2) show ?thesis by simp
  next
    case (Some p)
    obtain r1 db1 where p: "p = (r1, db1)" by (cases p)
    from ids_ok_run_city [OF Cons.prems(1)] Some p have ok1: "ids_ok db1" by simp
    show ?thesis
    proof (cases r1)
      case None
      with Cons.prems(2) Some p have "run_cities mp rid ws db1 = Some (r, db')" by simp
      from Cons.IH [OF ok1 this] show ?thesis .
    next
      case (Some e)
      with Cons.prems(2) \<open>run_city mp rid w db = Some p\<close> p ok1 show ?thesis by simp
    qed
  qed
qed

lemma search_phase_ids_distinct:
  "run_cities mp rid ws new_db = Some (r, db) \<Longrightarrow> distinct (map t_id (targets db))"
  using ids_ok_run_cities [OF ids_ok_new_db, of mp rid ws r db] by (simp add: ids_ok_def)

lemma nth_of_map_selected:
  assumes "targets db' = map (\<lambda>t. if t \<in> S then t\<lparr>t_status := f t\<rparr> else t) (targets db)"
    and "row \<in> S"
  shows "\<forall>i < length (targets db). targets db ! i = row \<longrightarrow> targets db' ! i = row\<lparr>t_status := f row\<rparr>"
  using assms by simp

text \<open>
  Claim C8. Let the ids of the store be pairwise different, as they are in every store
  built by \<^verbatim>\<open>add_target\<close>. If \<open>row\<close> is one of the queued rows that
  \<^verbatim>\<open>process_detail_targets\<close> takes up and an exception leaves the scrape of its
  page, then the row ends with status \<^verbatim>\<open>error\<close>, the loop appends no result for
  it (the appended results are those of the rows whose scrape returned data), every
  taken row is visited exactly once and in order (no second attempt), and every taken
  row, the later ones included, ends with the status its own scrape calls for.
\<close>

theorem process_detail_targets_error:
  assumes "distinct (map t_id (targets db))"
    and "row \<in> set (detail_targets max_detail run_id db)"
    and "scrape_detail_page (web row) = Inl e"
    and "process_detail_targets web max_detail run_id db = (db', visits)"
  shows "(\<forall>i < length (targets db). targets db ! i = row \<longrightarrow> targets db' ! i = row\<lparr>t_status := ''error''\<rparr>)
     \<and> rental_of web row = None
     \<and> results db' = results db @ List.map_filter (rental_of web) (detail_targets max_detail run_id db)
     \<and> visits = map t_value (detail_targets max_detail run_id db)
     \<and> distinct (detail_targets max_detail run_id db)
     \<and> targets db' =
         map (\<lambda>t. if t \<in> set (detail_targets max_detail run_id db)
                  then t\<lparr>t_status := status_of (scrape_detail_page (web t))\<rparr> else t) (targets db)"
proof -
  note c = process_detail_targets_char [OF assms(1,4)]
  have s: "status_of (scrape_detail_page (web row)) = ''error''"
    using assms(3) by (simp add: status_of_def)
  from nth_of_map_selected [OF c [THEN conjunct1] assms(2)] s
  have "\<forall>i < length (targets db). targets db ! i = row \<longrightarrow> targets db' ! i = row\<lparr>t_status := ''error''\<rparr>"
    by simp
  moreover have "rental_of web row = None" using assms(3) by (simp add: rental_of_def)
  moreover note detail_targets_distinct [OF assms(1), of max_detail run_id]
  ultimately show ?thesis using c by blast
qed

lemma block_check_None:
  "(block_check p = None) = (d_blocked p = Inr False \<or> (d_blocked p = Inr True \<and> d_input p = None))"
  by (cases "d_blocked p") (auto simp: block_check_def)

lemma scrape_no_heading_cases:
  assumes "d_get p = None" and "d_heading p = Some e"
  shows "d_log p = None \<Longrightarrow> block_check p = None \<Longrightarrow> scrape_detail_page p = Inr (None, None)"
    and "d_log p = Some e' \<Longrightarrow> scrape_detail_page p = Inl e'"
    and "d_log p = None \<Longrightarrow> block_check p = Some e' \<Longrightarrow> scrape_detail_page p = Inl e'"
  using assms by (simp_all add: scrape_detail_page_def)

text \<open>
  Claim C3, as the code has it. Let the page of a taken row load and the wait for a
  heading end with an exception (the timeout after 30 seconds). If the handler runs to
  its end, that is, the reads for its log line return, the page source can be read, and
  the page either shows no block markers or \<^verbatim>\<open>input()\<close> returns, then
  \<^verbatim>\<open>scrape_detail_page\<close> returns \<^verbatim>\<open>(None, None)\<close>, and
  \<^verbatim>\<open>process_detail_targets\<close> leaves the row with status \<^verbatim>\<open>empty\<close> and appends
  no result for it. If one of these steps raises, the exception leaves
  \<^verbatim>\<open>scrape_detail_page\<close> and the row ends with status \<^verbatim>\<open>error\<close>, again with
  no result.
\<close>

theorem scrape_detail_no_heading:
  assumes "d_get (web row) = None" and "d_heading (web row) = Some e"
    and "distinct (map t_id (targets db))"
    and "row \<in> set (detail_targets max_detail run_id db)"
    and "process_detail_targets web max_detail run_id db = (db', visits)"
  shows "(d_log (web row) = None
          \<and> (d_blocked (web row) = Inr False \<or> (d_blocked (web row) = Inr True \<and> d_input (web row) = None))
          \<longrightarrow>
            scrape_detail_page (web row) = Inr (None, None)
          \<and> (\<forall>i < length (targets db). targets db ! i = row \<longrightarrow>
                targets db' ! i = row\<lparr>t_status := ''empty''\<rparr>))
     \<and> (\<forall>e'. d_log (web row) = Some e'
             \<or> (d_log (web row) = None \<and> d_blocked (web row) = Inl e')
             \<or> (d_log (web row) = None \<and> d_blocked (web row) = Inr True \<and> d_input (web row) = Some e')
          \<longrightarrow>
            scrape_detail_page (web row) = Inl e'
          \<and> (\<forall>i < length (targets db). targets db ! i = row \<longrightarrow>
                targets db' ! i = row\<lparr>t_status := ''error''\<rparr>))
     \<and> rental_of web row = None
     \<and> results db' = results db @ List.map_filter (rental_of web) (detail_targets max_detail run_id db)"
proof -
  note c = process_detail_targets_char [OF assms(3,5)]
  note n = nth_of_map_selected [OF c [THEN conjunct1] assms(4)]
  have one: "scrape_detail_page (web row) = Inr (None, None)
          \<and> (\<forall>i < length (targets db). targets db ! i = row \<longrightarrow>
                targets db' ! i = row\<lparr>t_status := ''empty''\<rparr>)"
    if h: "d_log (web row) = None
          \<and> (d_blocked (web row) = Inr False \<or> (d_blocked (web row) = Inr True \<and> d_input (web row) = None))"
  proof -
    from h have "block_check (web row) = None" by (simp add: block_check_None)
    with h scrape_no_heading_cases(1) [OF assms(1,2)]
    have r: "scrape_detail_page (web row) = Inr (None, None)" by blast
    then have "status_of (scrape_detail_page (web row)) = ''empty''" by (simp add: status_of_def)
    with n r show ?thesis by simp
  qed
  have two: "scrape_detail_page (web row) = Inl e'
          \<and> (\<forall>i < length (targets db). targets db ! i = row \<longrightarrow>
                targets db' ! i = row\<lparr>t_status := ''error''\<rparr>)"
    if h: "d_log (web row) = Some e'
             \<or> (d_log (web row) = None \<and> d_blocked (web row) = Inl e')
             \<or> (d_log (web row) = None \<and> d_blocked (web row) = Inr True \<and> d_input (web row) = Some e')"
    for e'
  proof -
    from h have "d_log (web row) = Some e' \<or> (d_log (web row) = None \<and> block_check (web row) = Some e')"
      by (auto simp: block_check_def)
    with scrape_no_heading_cases(2,3) [OF assms(1,2)]
    have r: "scrape_detail_page (web row) = Inl e'" by blast
    then have "status_of (scrape_detail_page (web row)) = ''error''" by (simp add: status_of_def)
    with n r show ?thesis by simp
  qed
  have three: "rental_of web row = None"
    using assms(1,2)
    by (cases "d_log (web row)"; cases "block_check (web row)")
      (simp_all add: rental_of_def scrape_detail_page_def)
  from one two three c show ?thesis by blast
qed

lemma q3_eval:
  "process_detail_targets web3 0 7 db_q3 =
    (\<lparr>targets =
       [\<lparr>t_id = 1, t_run_id = 7, t_type = ''vrbo_detail'', t_value = ''a'', t_url = ''a?x'', t_status = ''error''\<rparr>,
        \<lparr>t_id = 2, t_run_id = 7, t_type = ''vrbo_detail'', t_value = ''b'', t_url = ''b?x'', t_status = ''empty''\<rparr>,
        \<lparr>t_id = 3, t_run_id = 7, t_type = ''vrbo_detail'', t_value = ''c'', t_url = ''c'', t_status = ''done''\<rparr>],
      next_target_id = 4,
      results = [\<lparr>r_url = ''c'', r_latitude = Some 4, r_longitude = Some (- 74), r_data = ''listing''\<rparr>]\<rparr>,
     [''a'', ''b'', ''c''])"
  by (simp add: process_detail_targets_def detail_targets_def list_targets_def db_q3_def web3_def
      add_target_def new_db_def VRBO_TARGET_TYPE_def py_or_def truthy_def scrape_detail_page_def
      block_check_def page_crash_def page_timeout_def page_ok_def update_target_status_def
      save_rental_def Let_def)

lemma q3_rows:
  "detail_targets 0 7 db_q3 = targets db_q3"
  "targets db_q3 =
       [\<lparr>t_id = 1, t_run_id = 7, t_type = ''vrbo_detail'', t_value = ''a'', t_url = ''a?x'', t_status = ''queued''\<rparr>,
        \<lparr>t_id = 2, t_run_id = 7, t_type = ''vrbo_detail'', t_value = ''b'', t_url = ''b?x'', t_status = ''queued''\<rparr>,
        \<lparr>t_id = 3, t_run_id = 7, t_type = ''vrbo_detail'', t_value = ''c'', t_url = ''c'', t_status = ''queued''\<rparr>]"
  by (simp_all add: detail_targets_def list_targets_def db_q3_def
      add_target_def new_db_def VRBO_TARGET_TYPE_def py_or_def truthy_def)

theorem process_detail_targets_error_witness:
  "scrape_detail_page (web3 (targets db_q3 ! 0)) = Inl (Exc ''page load timeout'')
   \<and> targets (fst (process_detail_targets web3 0 7 db_q3)) ! 0 = (targets db_q3 ! 0)\<lparr>t_status := ''error''\<rparr>
   \<and> results (fst (process_detail_targets web3 0 7 db_q3)) =
        results db_q3 @ List.map_filter (rental_of web3) (detail_targets 0 7 db_q3)
   \<and> snd (process_detail_targets web3 0 7 db_q3) = [''a'', ''b'', ''c'']
   \<and> map t_status (targets (fst (process_detail_targets web3 0 7 db_q3))) = [''error'', ''empty'', ''done'']"
proof -
  have d: "distinct (map t_id (targets db_q3))" by (simp add: q3_rows)
  have r: "targets db_q3 ! 0 \<in> set (detail_targets 0 7 db_q3)" by (simp add: q3_rows)
  have s: "scrape_detail_page (web3 (targets db_q3 ! 0)) = Inl (Exc ''page load timeout'')"
    by (simp add: q3_rows web3_def page_crash_def scrape_detail_page_def)
  from process_detail_targets_error [OF d r s q3_eval] s show ?thesis
    by (simp add: q3_eval q3_rows)
qed

theorem scrape_detail_no_heading_witness:
  "scrape_detail_page (web3 (targets db_q3 ! 1)) = Inr (None, None)
   \<and> targets (fst (process_detail_targets web3 0 7 db_q3)) ! 1 = (targets db_q3 ! 1)\<lparr>t_status := ''empty''\<rparr>
   \<and> results (fst (process_detail_targets web3 0 7 db_q3)) =
        [\<lparr>r_url = ''c'', r_latitude = Some 4, r_longitude = Some (- 74), r_data = ''listing''\<rparr>]"
proof -
  have d: "distinct (map t_id (targets db_q3))" by (simp add: q3_rows)
  have r: "targets db_q3 ! 1 \<in> set (detail_targets 0 7 db_q3)" by (simp add: q3_rows)
  have g: "d_get (web3 (targets db_q3 ! 1)) = None"
    and h: "d_heading (web3 (targets db_q3 ! 1)) = Some (Exc ''TimeoutException'')"
    and l: "d_log (web3 (targets db_q3 ! 1)) = None
        \<and> (d_blocked (web3 (targets db_q3 ! 1)) = Inr False
           \<or> (d_blocked (web3 (targets db_q3 ! 1)) = Inr True \<and> d_input (web3 (targets db_q3 ! 1)) = None))"
    by (simp_all add: q3_rows web3_def page_timeout_def)
  from scrape_detail_no_heading [OF g h d r q3_eval, THEN conjunct1, THEN mp, OF l]
  show ?thesis by (simp add: q3_eval q3_rows)
qed

text \<open>
  Two pages whose heading never turns up: on the first the block markers show and
  \<^verbatim>\<open>input()\<close> raises, on the others the page source cannot be read. The exception
  leaves \<^verbatim>\<open>scrape_detail_page\<close> and every row ends with status \<^verbatim>\<open>error\<close>.
\<close>

theorem scrape_detail_no_heading_counterexample:
  "d_get (web_bad (targets db_q3 ! 0)) = None
   \<and> d_heading (web_bad (targets db_q3 ! 0)) = Some (Exc ''TimeoutException'')
   \<and> scrape_detail_page (web_bad (targets db_q3 ! 0)) = Inl (Exc ''EOFError'')
   \<and> d_get (web_bad (targets db_q3 ! 1)) = None
   \<and> d_heading (web_bad (targets db_q3 ! 1)) = Some (Exc ''TimeoutException'')
   \<and> scrape_detail_page (web_bad (targets db_q3 ! 1)) = Inl (Exc ''WebDriverException'')
   \<and> map t_status (targets (fst (process_detail_targets web_bad 0 7 db_q3)))
       = [''error'', ''error'', ''error'']"
  by (simp add: process_detail_targets_def detail_targets_def list_targets_def db_q3_def web_bad_def
      add_target_def new_db_def VRBO_TARGET_TYPE_def py_or_def truthy_def scrape_detail_page_def
      block_check_def page_timeout_def page_timeout_eof_def page_timeout_dead_def
      update_target_status_def save_rental_def Let_def)

subsection \<open>ensure_dates\<close>

text \<open>Rules that evaluate the decimal text of a numeral and the ISO text of a date.\<close>

lemma str_nat_small: "n < 10 \<Longrightarrow> str_nat n = [digit_char n]"
  by (simp add: str_nat.simps)

lemma str_nat_big: "10 \<le> n \<Longrightarrow> str_nat n = str_nat (n div 10) @ [digit_char (n mod 10)]"
  by (subst str_nat.simps) simp

lemma replicate_numeral: "replicate (numeral k) x = x # replicate (pred_numeral k) x"
  by (simp add: numeral_eq_Suc)

lemmas eval_str = str_int_def str_nat_small str_nat_big digit_char_def zfill_def replicate_numeral

lemmas eval_date = isoformat_def date_year_def date_month_def date_day_def year_shift_def
  month_of_index_def month_index_def day_of_year_def year_of_era_def era_of_def day_of_era_def

lemma iso_ex: "isoformat 739924 = ''2026-11-04''" "isoformat 739926 = ''2026-11-06''"
  by (simp_all add: eval_date eval_str)

text \<open>
  Claim C5, as the code has it. Let the check-out date, today + 1 day + max(1, nights)
  days, be a date of the calendar (not after 9999-12-31). When force-tomorrow is on, or
  either date is missing (\<^verbatim>\<open>None\<close> or empty), \<^verbatim>\<open>ensure_dates\<close> overwrites both
  dates: check-in becomes the ISO text of today + 1 day and check-out that of check-in
  + max(1, nights) days, whatever the dates were before. When force-tomorrow is off and
  both dates are there, the config comes back unchanged, whatever the number of nights.
  When the dates are to be overwritten and the check-out date is beyond the calendar,
  the date arithmetic raises \<^verbatim>\<open>OverflowError\<close> and no date is set.
\<close>

theorem ensure_dates_tomorrow:
  "(force \<or> \<not> truthy (checkin c) \<or> \<not> truthy (checkout c) \<longrightarrow>
      1 \<le> today \<and> today + 1 + max 1 (nights c) \<le> date_max \<longrightarrow>
      ensure_dates force today c =
        Inr (c\<lparr>checkin := Some (isoformat (today + 1)),
               checkout := Some (isoformat (today + 1 + max 1 (nights c)))\<rparr>))
   \<and> (\<not> force \<and> truthy (checkin c) \<and> truthy (checkout c) \<longrightarrow> ensure_dates force today c = Inr c)
   \<and> (force \<or> \<not> truthy (checkin c) \<or> \<not> truthy (checkout c) \<longrightarrow>
      1 \<le> today \<and> date_max < today + 1 + max 1 (nights c) \<longrightarrow>
      ensure_dates force today c = Inl (Exc ''OverflowError''))"
  by (auto simp: ensure_dates_def force_tomorrow_dates_def date_add_def timedelta_days_def date_max_def)

theorem ensure_dates_tomorrow_witness:
  "ensure_dates True 739923 bogota = Inr (bogota\<lparr>checkin := Some ''2026-11-04'', checkout := Some ''2026-11-06''\<rparr>)
   \<and> ensure_dates False 739923 (bogota\<lparr>checkout := None\<rparr>)
       = Inr (bogota\<lparr>checkin := Some ''2026-11-04'', checkout := Some ''2026-11-06''\<rparr>)
   \<and> ensure_dates False 739923 bogota = Inr bogota"
proof -
  have t: "truthy (checkin bogota)" "truthy (checkout bogota)" "nights bogota = 2"
    by (simp_all add: bogota_def truthy_def)
  have r: "(1::int) \<le> 739923 \<and> 739923 + 1 + max 1 (nights bogota) \<le> date_max"
    by (simp add: t date_max_def)
  from ensure_dates_tomorrow [of True bogota 739923] r
  have a: "ensure_dates True 739923 bogota = Inr (bogota\<lparr>checkin := Some ''2026-11-04'', checkout := Some ''2026-11-06''\<rparr>)"
    by (simp add: t iso_ex)
  from ensure_dates_tomorrow [of False "bogota\<lparr>checkout := None\<rparr>" 739923] r
  have b: "ensure_dates False 739923 (bogota\<lparr>checkout := None\<rparr>)
       = Inr (bogota\<lparr>checkin := Some ''2026-11-04'', checkout := Some ''2026-11-06''\<rparr>)"
    by (simp add: t iso_ex truthy_def)
  from ensure_dates_tomorrow [of False bogota 739923] t
  have c: "ensure_dates False 739923 bogota = Inr bogota" by simp
  from a b c show ?thesis by blast
qed

text \<open>
  A config with ten million nights on 2026-11-03, force-tomorrow on: the check-out date
  would lie after 9999-12-31, \<^verbatim>\<open>checkin + timedelta(days=10000000)\<close> raises
  \<^verbatim>\<open>OverflowError\<close>, and neither date is set.
\<close>

theorem ensure_dates_overflow_counterexample:
  "ensure_dates True 739923 (bogota\<lparr>nights := 10000000\<rparr>) = Inl (Exc ''OverflowError'')"
  by (simp add: ensure_dates_def force_tomorrow_dates_def date_add_def timedelta_days_def
      date_max_def bogota_def)

subsection \<open>parse_price_amount\<close>

lemma not_digit_point [simp]: "\<not> is_digit CHR ''.''" "\<not> is_digit CHR '',''"
  by (simp_all add: is_digit_def)

lemma search_number_none:
  assumes "\<forall>c \<in> set t. \<not> is_digit c"
  shows "search_number t = None"
proof -
  have dw: "dropWhile (\<lambda>c. \<not> is_digit c) t = []" using assms by simp
  show ?thesis unfolding search_number_def dw by simp
qed

lemma search_number_run:
  assumes "\<forall>c \<in> set pre. \<not> is_digit c" and "run \<noteq> []" and "is_digit (hd run)"
    and "\<forall>c \<in> set run. is_price_char c" and "post = [] \<or> \<not> is_price_char (hd post)"
  shows "search_number (pre @ run @ post) = Some run"
proof -
  from assms(2,3) obtain r rs where run: "run = r # rs" "is_digit r" by (cases run) auto
  have "dropWhile (\<lambda>c. \<not> is_digit c) (pre @ run @ post) = run @ post"
    using assms(1) run by (simp add: dropWhile_append3)
  moreover have "takeWhile is_price_char (run @ post) = run"
  proof (cases post)
    case Nil
    with assms(4) show ?thesis by simp
  next
    case (Cons q qs)
    with assms(4,5) show ?thesis by (simp add: takeWhile_append2)
  qed
  ultimately show ?thesis using run by (simp add: search_number_def)
qed

text \<open>The text handed to \<^verbatim>\<open>float\<close> for a run without a comma, and with one.\<close>

lemma normalise_plain:
  assumes "\<forall>c \<in> set a. is_digit c \<or> c = CHR ''.''"
  shows "normalise_price a = filter is_digit a"
proof -
  have "filter (\<lambda>c. c \<noteq> CHR ''.'') a = filter is_digit a"
    using assms by (auto intro: filter_cong)
  moreover have "map (\<lambda>c. if c = CHR '','' then CHR ''.'' else c) (filter is_digit a) = filter is_digit a"
    by (rule map_idI) auto
  ultimately show ?thesis by (simp add: normalise_price_def)
qed

lemma normalise_append: "normalise_price (a @ b) = normalise_price a @ normalise_price b"
  by (simp add: normalise_price_def)

lemma normalise_comma: "normalise_price (CHR '','' # b) = CHR ''.'' # normalise_price b"
  by (simp add: normalise_price_def)

lemma parse_run:
  assumes "\<forall>c \<in> set pre. \<not> is_digit c" and "run \<noteq> []" and "is_digit (hd run)"
    and "\<forall>c \<in> set run. is_price_char c" and "post = [] \<or> \<not> is_price_char (hd post)"
  shows "parse_price_amount float (Some (pre @ run @ post)) = float (normalise_price run)"
  using search_number_run [OF assms] assms(2) by (simp add: parse_price_amount_def)

lemma parse_plain:
  assumes "\<forall>c \<in> set pre. \<not> is_digit c" and "a \<noteq> []" and "is_digit (hd a)"
    and "\<forall>c \<in> set a. is_digit c \<or> c = CHR ''.''" and "post = [] \<or> \<not> is_price_char (hd post)"
  shows "parse_price_amount float (Some (pre @ a @ post)) = float (filter is_digit a)"
proof -
  have "\<forall>c \<in> set a. is_price_char c" using assms(4) by (auto simp: is_price_char_def)
  from parse_run [OF assms(1,2,3) this assms(5)] show ?thesis
    by (simp add: normalise_plain [OF assms(4)])
qed

lemma parse_comma:
  assumes "\<forall>c \<in> set pre. \<not> is_digit c" and "a \<noteq> []" and "is_digit (hd a)"
    and "\<forall>c \<in> set a. is_digit c \<or> c = CHR ''.''" and "\<forall>c \<in> set b. is_digit c \<or> c = CHR ''.''"
    and "post = [] \<or> \<not> is_price_char (hd post)"
  shows "parse_price_amount float (Some (pre @ (a @ CHR '','' # b) @ post))
       = float (filter is_digit a @ CHR ''.'' # filter is_digit b)"
proof -
  have "\<forall>c \<in> set (a @ CHR '','' # b). is_price_char c"
    using assms(4,5) by (auto simp: is_price_char_def)
  moreover have "a @ CHR '','' # b \<noteq> []" "is_digit (hd (a @ CHR '','' # b))"
    using assms(2,3) by simp_all
  ultimately have "parse_price_amount float (Some (pre @ (a @ CHR '','' # b) @ post))
      = float (normalise_price (a @ CHR '','' # b))"
    using parse_run [OF assms(1) _ _ _ assms(6)] by blast
  then show ?thesis
    by (simp add: normalise_append normalise_comma normalise_plain [OF assms(4)]
        normalise_plain [OF assms(5)])
qed

text \<open>
  Claim C4. \<^verbatim>\<open>parse_price_amount\<close> maps \<^verbatim>\<open>"1.234,56 USD"\<close> to the float of the
  text \<^verbatim>\<open>1234.56\<close>, the empty text and \<^verbatim>\<open>None\<close> to absent, and a text without
  digits to absent. For every text with a digit, the text is cut at its first digit, the
  run of digits, points and commas from there is taken, every point of the run is
  dropped, every comma is turned into a point, and the result is what \<^verbatim>\<open>float\<close>
  makes of that text (absent when \<^verbatim>\<open>float\<close> rejects it): for a run without a
  comma the text of its digits, for a run with one comma the digits before the comma,
  a point, and the digits behind it.
\<close>

theorem parse_price_amount_spec:
  "parse_price_amount float (Some ''1.234,56 USD'') = float ''1234.56''
   \<and> parse_price_amount float (Some []) = None
   \<and> parse_price_amount float None = None
   \<and> ((\<forall>c \<in> set t. \<not> is_digit c) \<longrightarrow> parse_price_amount float (Some t) = None)
   \<and> ((\<forall>c \<in> set pre. \<not> is_digit c) \<and> run \<noteq> [] \<and> is_digit (hd run)
        \<and> (\<forall>c \<in> set run. is_price_char c)
        \<and> (post = [] \<or> \<not> is_price_char (hd post)) \<longrightarrow>
        parse_price_amount float (Some (pre @ run @ post))
          = float (map (\<lambda>c. if c = CHR '','' then CHR ''.'' else c) (filter (\<lambda>c. c \<noteq> CHR ''.'') run)))
   \<and> ((\<forall>c \<in> set pre. \<not> is_digit c) \<and> a \<noteq> [] \<and> is_digit (hd a)
        \<and> (\<forall>c \<in> set a. is_digit c \<or> c = CHR ''.'') \<and> (\<forall>c \<in> set b. is_digit c \<or> c = CHR ''.'')
        \<and> (post = [] \<or> \<not> is_price_char (hd post)) \<longrightarrow>
        parse_price_amount float (Some (pre @ a @ post)) = float (filter is_digit a)
        \<and> parse_price_amount float (Some (pre @ (a @ CHR '','' # b) @ post))
            = float (filter is_digit a @ CHR ''.'' # filter is_digit b))"
proof -
  have "parse_price_amount float (Some ([] @ (''1.234'' @ CHR '','' # ''56'') @ '' USD''))
       = float (filter is_digit ''1.234'' @ CHR ''.'' # filter is_digit ''56'')"
    by (rule parse_comma) (simp_all add: is_digit_def is_price_char_def)
  then have e1: "parse_price_amount float (Some ''1.234,56 USD'') = float ''1234.56''"
    by (simp add: is_digit_def)
  have e2: "parse_price_amount float (Some []) = None" "parse_price_amount float None = None"
    by (simp_all add: parse_price_amount_def)
  have e3: "(\<forall>c \<in> set t. \<not> is_digit c) \<longrightarrow> parse_price_amount float (Some t) = None"
    using search_number_none [of t] by (simp add: parse_price_amount_def)
  have e4: "(\<forall>c \<in> set pre. \<not> is_digit c) \<and> run \<noteq> [] \<and> is_digit (hd run)
        \<and> (\<forall>c \<in> set run. is_price_char c)
        \<and> (post = [] \<or> \<not> is_price_char (hd post)) \<longrightarrow>
        parse_price_amount float (Some (pre @ run @ post))
          = float (map (\<lambda>c. if c = CHR '','' then CHR ''.'' else c) (filter (\<lambda>c. c \<noteq> CHR ''.'') run))"
  proof
    assume h: "(\<forall>c \<in> set pre. \<not> is_digit c) \<and> run \<noteq> [] \<and> is_digit (hd run)
        \<and> (\<forall>c \<in> set run. is_price_char c)
        \<and> (post = [] \<or> \<not> is_price_char (hd post))"
    then have h1: "\<forall>c \<in> set pre. \<not> is_digit c" and h2: "run \<noteq> []" and h3: "is_digit (hd run)"
      and h4: "\<forall>c \<in> set run. is_price_char c" and h5: "post = [] \<or> \<not> is_price_char (hd post)"
      by simp_all
    from parse_run [OF h1 h2 h3 h4 h5, of float]
    show "parse_price_amount float (Some (pre @ run @ post))
          = float (map (\<lambda>c. if c = CHR '','' then CHR ''.'' else c) (filter (\<lambda>c. c \<noteq> CHR ''.'') run))"
      by (simp add: normalise_price_def)
  qed
  have e5: "(\<forall>c \<in> set pre. \<not> is_digit c) \<and> a \<noteq> [] \<and> is_digit (hd a)
        \<and> (\<forall>c \<in> set a. is_digit c \<or> c = CHR ''.'') \<and> (\<forall>c \<in> set b. is_digit c \<or> c = CHR ''.'')
        \<and> (post = [] \<or> \<not> is_price_char (hd post)) \<longrightarrow>
        parse_price_amount float (Some (pre @ a @ post)) = float (filter is_digit a)
        \<and> parse_price_amount float (Some (pre @ (a @ CHR '','' # b) @ post))
            = float (filter is_digit a @ CHR ''.'' # filter is_digit b)"
  proof
    assume h: "(\<forall>c \<in> set pre. \<not> is_digit c) \<and> a \<noteq> [] \<and> is_digit (hd a)
        \<and> (\<forall>c \<in> set a. is_digit c \<or> c = CHR ''.'') \<and> (\<forall>c \<in> set b. is_digit c \<or> c = CHR ''.'')
        \<and> (post = [] \<or> \<not> is_price_char (hd post))"
    then have h1: "\<forall>c \<in> set pre. \<not> is_digit c" and h2: "a \<noteq> []" and h3: "is_digit (hd a)"
      and h4: "\<forall>c \<in> set a. is_digit c \<or> c = CHR ''.''" and h5: "\<forall>c \<in> set b. is_digit c \<or> c = CHR ''.''"
      and h7: "post = [] \<or> \<not> is_price_char (hd post)"
      by simp_all
    show "parse_price_amount float (Some (pre @ a @ post)) = float (filter is_digit a)
        \<and> parse_price_amount float (Some (pre @ (a @ CHR '','' # b) @ post))
            = float (filter is_digit a @ CHR ''.'' # filter is_digit b)"
      using parse_plain [OF h1 h2 h3 h4 h7, of float] parse_comma [OF h1 h2 h3 h4 h5 h7, of float]
      by simp
  qed
  from e1 e2 e3 e4 e5 show ?thesis by (intro conjI)
qed

theorem parse_price_amount_spec_witness:
  "parse_price_amount accepted_text (Some ''no digits'') = None
   \<and> parse_price_amount accepted_text (Some ''$ 1.234.567 COP'') = Some ''1234567''
   \<and> parse_price_amount accepted_text (Some ''EUR 1.234,5'') = Some ''1234.5''
   \<and> parse_price_amount accepted_text (Some ''1,2,3'') = None"
proof -
  note t = parse_price_amount_spec [of accepted_text "''no digits''" "''$ ''" "''1.234.567''" "'' COP''"
      "''1.234.567''" "[]", THEN conjunct2, THEN conjunct2, THEN conjunct2]
  note u = parse_price_amount_spec [of accepted_text "''no digits''" "''EUR ''" "''1,2,3''" "[]"
      "''1.234''" "''5''", THEN conjunct2, THEN conjunct2, THEN conjunct2, THEN conjunct2]
  note v = parse_price_amount_spec [of accepted_text "''no digits''" "[]" "''1,2,3''" "[]"
      "''1''" "[]", THEN conjunct2, THEN conjunct2, THEN conjunct2, THEN conjunct2]
  have nd: "\<forall>c \<in> set ''no digits''. \<not> is_digit c" by (simp add: is_digit_def)
  from t [THEN conjunct1, THEN mp, OF nd]
  have a: "parse_price_amount accepted_text (Some ''no digits'') = None" .
  have ht: "(\<forall>c \<in> set ''$ ''. \<not> is_digit c) \<and> ''1.234.567'' \<noteq> [] \<and> is_digit (hd ''1.234.567'')
        \<and> (\<forall>c \<in> set ''1.234.567''. is_digit c \<or> c = CHR ''.'') \<and> (\<forall>c \<in> set []. is_digit c \<or> c = CHR ''.'')
        \<and> ('' COP'' = [] \<or> \<not> is_price_char (hd '' COP''))"
    by (simp add: is_digit_def is_price_char_def)
  from t [THEN conjunct2, THEN conjunct2, THEN mp, OF ht, THEN conjunct1]
  have b: "parse_price_amount accepted_text (Some ''$ 1.234.567 COP'') = Some ''1234567''"
    by (simp add: is_digit_def accepted_text_def)
  have hu: "(\<forall>c \<in> set ''EUR ''. \<not> is_digit c) \<and> ''1.234'' \<noteq> [] \<and> is_digit (hd ''1.234'')
        \<and> (\<forall>c \<in> set ''1.234''. is_digit c \<or> c = CHR ''.'') \<and> (\<forall>c \<in> set ''5''. is_digit c \<or> c = CHR ''.'')
        \<and> ([] = [] \<or> \<not> is_price_char (hd []))"
    by (simp add: is_digit_def is_price_char_def)
  from u [THEN conjunct2, THEN mp, OF hu, THEN conjunct2]
  have c: "parse_price_amount accepted_text (Some ''EUR 1.234,5'') = Some ''1234.5''"
    by (simp add: is_digit_def accepted_text_def)
  have hv: "(\<forall>c \<in> set []. \<not> is_digit c) \<and> ''1,2,3'' \<noteq> [] \<and> is_digit (hd ''1,2,3'')
        \<and> (\<forall>c \<in> set ''1,2,3''. is_price_char c)
        \<and> ([] = [] \<or> \<not> is_price_char (hd []))"
    by (simp add: is_digit_def is_price_char_def)
  from v [THEN conjunct1, THEN mp, OF hv]
  have e: "parse_price_amount accepted_text (Some ''1,2,3'') = None"
    by (simp add: is_digit_def accepted_text_def)
  from a b c e show ?thesis by (intro conjI)
qed

subsection \<open>URL parsing\<close>

subsection \<open>Characters\<close>

lemma to_lower_cases:
  "to_lower c = c \<or> (is_upper c \<and> is_lower (to_lower c))"
  by (simp add: to_lower_def is_upper_def is_lower_def)

lemma lower_not_upper: "is_lower c \<Longrightarrow> \<not> is_upper c"
  by (auto simp: is_lower_def is_upper_def)

lemma to_lower_fix: "\<not> is_upper c \<Longrightarrow> to_lower c = c"
  by (simp add: to_lower_def is_upper_def)

lemma to_lower_idem: "to_lower (to_lower c) = to_lower c"
  using to_lower_cases [of c] lower_not_upper to_lower_fix by metis

lemma is_alpha_to_lower: "is_alpha c \<Longrightarrow> is_alpha (to_lower c)"
  using to_lower_cases [of c] by (auto simp: is_alpha_def)

lemma is_scheme_char_to_lower: "is_scheme_char c \<Longrightarrow> is_scheme_char (to_lower c)"
  using to_lower_cases [of c] by (auto simp: is_scheme_char_def is_alpha_def)

lemma scheme_char_facts:
  assumes "is_scheme_char c"
  shows "c \<noteq> CHR '':''" "c \<noteq> CHR ''/''" "c \<noteq> CHR ''?''" "c \<noteq> CHR ''#''" "\<not> is_unsafe c"
  using assms
  by (auto simp: is_scheme_char_def is_alpha_def is_lower_def is_upper_def is_digit_def is_unsafe_def)

lemma alpha_not_c0: "is_alpha c \<Longrightarrow> \<not> is_c0_or_space c"
  by (auto simp: is_alpha_def is_lower_def is_upper_def is_c0_or_space_def)

subsection \<open>Slices\<close>

lemma tw_absent: "c \<notin> set a \<Longrightarrow> takeWhile (\<lambda>x. x \<noteq> c) (a @ b) = a @ takeWhile (\<lambda>x. x \<noteq> c) b"
  by (induction a) auto

lemma tw_all: "c \<notin> set a \<Longrightarrow> takeWhile (\<lambda>x. x \<noteq> c) a = a"
  by (induction a) auto

lemma dw_absent: "c \<notin> set a \<Longrightarrow> dropWhile (\<lambda>x. x \<noteq> c) (a @ b) = dropWhile (\<lambda>x. x \<noteq> c) b"
  by (induction a) auto

lemma before_first_append: "c \<notin> set a \<Longrightarrow> before_first c (a @ c # b) = a"
  by (simp add: before_first_def tw_absent)

lemma after_first_append: "c \<notin> set a \<Longrightarrow> after_first c (a @ c # b) = b"
  by (simp add: after_first_def dw_absent)

lemma before_first_absent: "c \<notin> set s \<Longrightarrow> before_first c s = s"
  by (simp add: before_first_def tw_all)

lemma before_first_free: "c \<notin> set (before_first c s)"
  by (auto simp: before_first_def dest: set_takeWhileD)

lemma set_before_first: "set (before_first c s) \<subseteq> set s"
  by (auto simp: before_first_def dest: set_takeWhileD)

lemma set_after_first: "set (after_first c s) \<subseteq> set s"
  by (auto simp: after_first_def dest: in_set_dropD set_dropWhileD)

lemma first_split: "c \<in> set s \<Longrightarrow> s = before_first c s @ c # after_first c s"
proof -
  assume "c \<in> set s"
  then have "dropWhile (\<lambda>x. x \<noteq> c) s \<noteq> []" by simp
  then obtain d ds where d: "dropWhile (\<lambda>x. x \<noteq> c) s = d # ds" by (cases "dropWhile (\<lambda>x. x \<noteq> c) s") auto
  then have "d = c" using hd_dropWhile [of "\<lambda>x. x \<noteq> c" s] by auto
  with d have "takeWhile (\<lambda>x. x \<noteq> c) s @ c # ds = s"
    using takeWhile_dropWhile_id [of "\<lambda>x. x \<noteq> c" s] by simp
  with d show ?thesis by (simp add: before_first_def after_first_def)
qed

lemma last_split: "upto_last c s @ after_last c s = s"
proof -
  have "rev (takeWhile (\<lambda>x. x \<noteq> c) (rev s) @ dropWhile (\<lambda>x. x \<noteq> c) (rev s)) = s"
    by simp
  then show ?thesis by (simp add: upto_last_def after_last_def del: takeWhile_dropWhile_id)
qed

lemma after_last_free: "c \<notin> set (after_last c s)"
  by (auto simp: after_last_def dest: set_takeWhileD)

lemma after_last_absent: "c \<notin> set s \<Longrightarrow> after_last c s = s"
  by (simp add: after_last_def tw_all)

lemma after_last_append: "c \<notin> set b \<Longrightarrow> after_last c (a @ c # b) = b"
  using tw_absent [of c "rev b" "c # rev a"] by (simp add: after_last_def)

lemma after_last_Cons: "after_last c (c # s) = after_last c s"
proof (cases "c \<in> set s")
  case True
  then have "c \<in> set (rev s)" by simp
  then show ?thesis by (simp add: after_last_def takeWhile_append1)
next
  case False
  then show ?thesis by (simp add: after_last_def tw_absent tw_all)
qed

lemma upto_last_ends:
  assumes "c \<in> set s"
  shows "\<exists>a. upto_last c s = a @ [c]"
proof -
  from assms have "dropWhile (\<lambda>x. x \<noteq> c) (rev s) \<noteq> []" by simp
  then obtain d ds where d: "dropWhile (\<lambda>x. x \<noteq> c) (rev s) = d # ds"
    by (cases "dropWhile (\<lambda>x. x \<noteq> c) (rev s)") auto
  then have "d = c" using hd_dropWhile [of "\<lambda>x. x \<noteq> c" "rev s"] by auto
  with d show ?thesis by (simp add: upto_last_def)
qed

subsection \<open>What urlsplit and urlparse return\<close>

lemma scheme_wf_https: "scheme_wf ''https''"
  by (simp add: scheme_wf_def is_alpha_def is_lower_def is_scheme_char_def to_lower_def)

lemma scheme_wf_free:
  assumes "scheme_wf s"
  shows "CHR '':'' \<notin> set s" "CHR ''?'' \<notin> set s" "CHR ''#'' \<notin> set s" "\<forall>c \<in> set s. \<not> is_unsafe c"
proof -
  from assms have a: "\<forall>c \<in> set s. is_scheme_char c" by (simp add: scheme_wf_def list_all_iff)
  show "CHR '':'' \<notin> set s" using a scheme_char_facts(1) by blast
  show "CHR ''?'' \<notin> set s" using a scheme_char_facts(3) by blast
  show "CHR ''#'' \<notin> set s" using a scheme_char_facts(4) by blast
  show "\<forall>c \<in> set s. \<not> is_unsafe c" using a scheme_char_facts(5) by blast
qed

lemma split_scheme_cases:
  assumes "split_scheme url = (s, rest)"
  shows "(s = [] \<and> rest = url) \<or> (scheme_wf s \<and> set rest \<subseteq> set url)"
proof (cases "CHR '':'' \<in> set url \<and> before_first CHR '':'' url \<noteq> []
    \<and> is_alpha (hd (before_first CHR '':'' url)) \<and> list_all is_scheme_char (before_first CHR '':'' url)")
  case True
  with assms have s: "s = map to_lower (before_first CHR '':'' url)"
    and r: "rest = after_first CHR '':'' url"
    by (simp_all add: split_scheme_def Let_def)
  have "scheme_wf s"
    using True
    by (cases "before_first CHR '':'' url")
      (auto simp: s scheme_wf_def list_all_iff is_alpha_to_lower is_scheme_char_to_lower to_lower_idem)
  moreover have "set rest \<subseteq> set url" unfolding r by (rule set_after_first)
  ultimately show ?thesis by simp
next
  case False
  with assms show ?thesis by (auto simp: split_scheme_def Let_def)
qed

lemma split_netloc_props:
  assumes "split_netloc url = (n, rest)"
  shows "\<forall>c \<in> set n. \<not> is_netloc_delim c" and "set n \<subseteq> set url" and "set rest \<subseteq> set url"
  using assms
  by (auto simp: split_netloc_def split: if_splits dest: set_takeWhileD set_dropWhileD in_set_dropD)

lemma splitparams_props:
  assumes "splitparams path = (p, params)"
  shows "set p \<subseteq> set path" and "CHR '';'' \<notin> set (after_last CHR ''/'' p)"
proof -
  have "set p \<subseteq> set path \<and> CHR '';'' \<notin> set (after_last CHR ''/'' p)"
  proof (cases "CHR ''/'' \<in> set path")
    case True
    show ?thesis
    proof (cases "CHR '';'' \<in> set (after_last CHR ''/'' path)")
      case semi: True
      with True assms have p: "p = upto_last CHR ''/'' path @ before_first CHR '';'' (after_last CHR ''/'' path)"
        by (simp add: splitparams_def Let_def)
      from upto_last_ends [OF True] obtain a where a: "upto_last CHR ''/'' path = a @ [CHR ''/'']" by blast
      have nf: "CHR ''/'' \<notin> set (before_first CHR '';'' (after_last CHR ''/'' path))"
        using set_before_first [of "CHR '';''" "after_last CHR ''/'' path"] after_last_free [of "CHR ''/''" path]
        by blast
      have "after_last CHR ''/'' p = before_first CHR '';'' (after_last CHR ''/'' path)"
        unfolding p a using after_last_append [OF nf, of a] by simp
      then have "CHR '';'' \<notin> set (after_last CHR ''/'' p)" by (simp add: before_first_free)
      moreover have "set p \<subseteq> set path"
      proof -
        have "set (upto_last CHR ''/'' path) \<subseteq> set path" "set (after_last CHR ''/'' path) \<subseteq> set path"
          using last_split [of "CHR ''/''" path] by (metis set_append Un_upper1, metis set_append Un_upper2)
        with set_before_first [of "CHR '';''" "after_last CHR ''/'' path"] show ?thesis
          unfolding p by auto
      qed
      ultimately show ?thesis by simp
    next
      case False
      with True assms show ?thesis by (simp add: splitparams_def Let_def)
    qed
  next
    case False
    with assms have p: "p = before_first CHR '';'' path" by (simp add: splitparams_def)
    have "CHR ''/'' \<notin> set p" unfolding p using False set_before_first by fastforce
    then have "after_last CHR ''/'' p = p" by (rule after_last_absent)
    then show ?thesis unfolding p using before_first_free set_before_first by metis
  qed
  then show "set p \<subseteq> set path" and "CHR '';'' \<notin> set (after_last CHR ''/'' p)" by simp_all
qed

text \<open>The components that \<^verbatim>\<open>urlparse\<close> returns.\<close>

lemma urlparse_props:
  assumes "urlparse ok url = Inr u"
  shows "u_scheme u = [] \<or> scheme_wf (u_scheme u)"
    and "\<forall>c \<in> set (u_netloc u). \<not> is_netloc_delim c \<and> \<not> is_unsafe c"
    and "netloc_valid ok (u_netloc u)"
    and "\<forall>c \<in> set (u_path u). c \<noteq> CHR ''?'' \<and> c \<noteq> CHR ''#'' \<and> \<not> is_unsafe c"
    and "u_scheme u \<in> set uses_params \<longrightarrow> CHR '';'' \<notin> set (after_last CHR ''/'' (u_path u))"
proof -
  define url1 where "url1 = filter (\<lambda>c. \<not> is_unsafe c) (dropWhile is_c0_or_space url)"
  obtain scheme url2 where ss: "split_scheme url1 = (scheme, url2)" by (cases "split_scheme url1")
  obtain netloc url3 where sn: "split_netloc url2 = (netloc, url3)" by (cases "split_netloc url2")
  define path where "path = before_first CHR ''?'' (before_first CHR ''#'' url3)"
  from assms obtain r where r: "urlsplit ok url = Inr r"
    by (auto simp: urlparse_def split: sum.splits)
  from r ss sn have valid: "netloc_valid ok netloc"
    and rs: "u_scheme r = scheme" "u_netloc r = netloc" "u_path r = path" "u_params r = []"
    by (auto simp: urlsplit_def url1_def path_def Let_def split: if_splits)
  have safe1: "\<forall>c \<in> set url1. \<not> is_unsafe c" by (simp add: url1_def)
  from split_scheme_cases [OF ss] have sch: "scheme = [] \<or> scheme_wf scheme"
    and sub2: "set url2 \<subseteq> set url1" by auto
  from split_netloc_props [OF sn] have nd: "\<forall>c \<in> set netloc. \<not> is_netloc_delim c"
    and subn: "set netloc \<subseteq> set url2" and sub3: "set url3 \<subseteq> set url2" by auto
  have subp: "set path \<subseteq> set url3"
    unfolding path_def using set_before_first by (metis subset_trans)
  have pfree: "CHR ''?'' \<notin> set path" "CHR ''#'' \<notin> set path"
    unfolding path_def using before_first_free set_before_first by (metis, metis subsetD)
  have psafe: "\<forall>c \<in> set path. \<not> is_unsafe c" using subp sub3 sub2 safe1 by blast
  have nsafe: "\<forall>c \<in> set netloc. \<not> is_unsafe c" using subn sub2 safe1 by blast
  have u_eq: "u_scheme u = scheme \<and> u_netloc u = netloc \<and> set (u_path u) \<subseteq> set path
      \<and> (scheme \<in> set uses_params \<longrightarrow> CHR '';'' \<notin> set (after_last CHR ''/'' (u_path u)))"
  proof (cases "scheme \<in> set uses_params \<and> CHR '';'' \<in> set path")
    case True
    obtain p params where sp: "splitparams path = (p, params)" by (cases "splitparams path")
    with assms r rs True have "u = r\<lparr>u_path := p, u_params := params\<rparr>"
      by (simp add: urlparse_def)
    with rs splitparams_props [OF sp] show ?thesis by simp
  next
    case False
    with assms r rs have "u = r" by (auto simp: urlparse_def)
    moreover have "CHR '';'' \<notin> set (after_last CHR ''/'' path)" if "scheme \<in> set uses_params"
    proof -
      from that False have "CHR '';'' \<notin> set path" by simp
      moreover have "set (after_last CHR ''/'' path) \<subseteq> set path"
        using last_split [of "CHR ''/''" path] by (metis set_append Un_upper2)
      ultimately show ?thesis by blast
    qed
    ultimately show ?thesis using rs by simp
  qed
  show "u_scheme u = [] \<or> scheme_wf (u_scheme u)" using u_eq sch by simp
  show "\<forall>c \<in> set (u_netloc u). \<not> is_netloc_delim c \<and> \<not> is_unsafe c" using u_eq nd nsafe by simp
  show "netloc_valid ok (u_netloc u)" using u_eq valid by simp
  show "\<forall>c \<in> set (u_path u). c \<noteq> CHR ''?'' \<and> c \<noteq> CHR ''#'' \<and> \<not> is_unsafe c"
    using u_eq pfree psafe by blast
  show "u_scheme u \<in> set uses_params \<longrightarrow> CHR '';'' \<notin> set (after_last CHR ''/'' (u_path u))"
    using u_eq by simp
qed

subsection \<open>Parsing a URL of the form scheme://netloc/path\<close>

lemma split_scheme_canonical:
  assumes "scheme_wf s"
  shows "split_scheme (s @ CHR '':'' # rest) = (s, rest)"
proof -
  have nf: "CHR '':'' \<notin> set s" by (rule scheme_wf_free(1) [OF assms])
  have "before_first CHR '':'' (s @ CHR '':'' # rest) = s" by (rule before_first_append [OF nf])
  moreover have "after_first CHR '':'' (s @ CHR '':'' # rest) = rest" by (rule after_first_append [OF nf])
  ultimately show ?thesis using assms by (simp add: split_scheme_def scheme_wf_def)
qed

lemma split_netloc_canonical:
  assumes "\<forall>c \<in> set n. \<not> is_netloc_delim c" and "p = [] \<or> hd p = CHR ''/''"
  shows "split_netloc (''//'' @ n @ p) = (n, p)"
proof -
  have "takeWhile (\<lambda>c. \<not> is_netloc_delim c) (n @ p) = n"
    using assms by (cases p) (auto simp: takeWhile_append2 is_netloc_delim_def)
  moreover have "dropWhile (\<lambda>c. \<not> is_netloc_delim c) (n @ p) = p"
    using assms by (cases p) (auto simp: dropWhile_append3 is_netloc_delim_def)
  ultimately show ?thesis by (simp add: split_netloc_def)
qed

lemma urlparse_canonical:
  assumes s: "scheme_wf s"
    and n: "\<forall>c \<in> set n. \<not> is_netloc_delim c \<and> \<not> is_unsafe c" "netloc_valid ok n"
    and p: "p = [] \<or> hd p = CHR ''/''" "\<forall>c \<in> set p. c \<noteq> CHR ''?'' \<and> c \<noteq> CHR ''#'' \<and> \<not> is_unsafe c"
      "s \<in> set uses_params \<longrightarrow> CHR '';'' \<notin> set (after_last CHR ''/'' p)"
  shows "urlparse ok (s @ ''://'' @ n @ p)
       = Inr \<lparr>u_scheme = s, u_netloc = n, u_path = p, u_params = [], u_query = [], u_fragment = []\<rparr>"
proof -
  define url where "url = s @ ''://'' @ n @ p"
  from s obtain c cs where sc: "s = c # cs" "is_alpha c" by (cases s) (auto simp: scheme_wf_def)
  have "dropWhile is_c0_or_space url = url"
    using sc alpha_not_c0 by (simp add: url_def)
  moreover have "filter (\<lambda>c. \<not> is_unsafe c) url = url"
    using scheme_wf_free(4) [OF s] n(1) p(2) by (auto simp: url_def is_unsafe_def)
  ultimately have u1: "filter (\<lambda>c. \<not> is_unsafe c) (dropWhile is_c0_or_space url) = url" by simp
  have u2: "split_scheme url = (s, ''//'' @ n @ p)"
    using split_scheme_canonical [OF s, of "''//'' @ n @ p"] by (simp add: url_def)
  have u3: "split_netloc (''//'' @ n @ p) = (n, p)"
    using split_netloc_canonical [of n p] n(1) p(1) by blast
  have pf: "CHR ''#'' \<notin> set p" "CHR ''?'' \<notin> set p" using p(2) by auto
  have bf: "before_first CHR ''#'' p = p" "before_first CHR ''?'' p = p"
    using pf by (simp_all add: before_first_absent)
  have split: "urlsplit ok url
       = Inr \<lparr>u_scheme = s, u_netloc = n, u_path = p, u_params = [], u_query = [], u_fragment = []\<rparr>"
    unfolding urlsplit_def u1 Let_def u2 prod.case u3 using n(2) pf bf by simp
  have "\<not> (s \<in> set uses_params \<and> CHR '';'' \<in> set p) \<or> splitparams p = (p, [])"
  proof (cases "s \<in> set uses_params \<and> CHR '';'' \<in> set p")
    case True
    then have ne: "p \<noteq> []" by auto
    with p(1) have "CHR ''/'' \<in> set p" by (cases p) auto
    moreover from True p(3) have "CHR '';'' \<notin> set (after_last CHR ''/'' p)" by simp
    ultimately show ?thesis by (simp add: splitparams_def Let_def)
  next
    case False
    then show ?thesis by simp
  qed
  then show ?thesis
    unfolding url_def [symmetric] urlparse_def split by auto
qed

lemma netloc_valid_plain:
  "CHR ''['' \<notin> set n \<Longrightarrow> CHR '']'' \<notin> set n \<Longrightarrow> list_all is_ascii n \<Longrightarrow> netloc_valid ok n"
  by (simp add: netloc_valid_def)

lemma urlparse_base:
  "urlparse ok VRBO_BASE
     = Inr \<lparr>u_scheme = ''https'', u_netloc = ''www.vrbo.com'', u_path = [], u_params = [],
            u_query = [], u_fragment = []\<rparr>"
proof -
  have "netloc_valid ok ''www.vrbo.com''"
    by (rule netloc_valid_plain) (simp_all add: is_ascii_def)
  from urlparse_canonical [OF scheme_wf_https _ this, of "[]"] show ?thesis
    by (simp add: VRBO_BASE_def is_netloc_delim_def is_unsafe_def after_last_def)
qed

subsection \<open>clean_url\<close>

lemma clean_url_raise: "urlparse ok href = Inl e \<Longrightarrow> clean_url ok href = href"
  by (simp add: clean_url_def)

lemma clean_url_parsed:
  assumes "urlparse ok href = Inr u"
  shows "clean_url ok href =
           (if u_scheme u \<noteq> [] then u_scheme u else ''https'') @ ''://''
           @ (if u_netloc u \<noteq> [] then u_netloc u else ''www.vrbo.com'') @ slashed (u_path u)"
  using assms
  by (simp add: clean_url_def urlparse_base urlunparse_def urlunsplit_def slashed_def)

lemma slashed_props:
  "slashed p = [] \<or> hd (slashed p) = CHR ''/''"
  "slashed (slashed p) = slashed p"
  "set (slashed p) \<subseteq> insert CHR ''/'' (set p)"
  "after_last CHR ''/'' (slashed p) = after_last CHR ''/'' p"
  by (cases p; auto simp: slashed_def after_last_Cons)+

lemma empty_uses_params: "[] \<in> set uses_params"
  by (simp add: uses_params_def)

lemma https_uses_params: "''https'' \<in> set uses_params"
  by (simp add: uses_params_def)

lemma clean_url_reparse:
  assumes "urlparse ok href = Inr u"
  shows "urlparse ok (clean_url ok href)
       = Inr \<lparr>u_scheme = (if u_scheme u \<noteq> [] then u_scheme u else ''https''),
              u_netloc = (if u_netloc u \<noteq> [] then u_netloc u else ''www.vrbo.com''),
              u_path = slashed (u_path u), u_params = [], u_query = [], u_fragment = []\<rparr>"
proof -
  define s where "s = (if u_scheme u \<noteq> [] then u_scheme u else ''https'')"
  define n where "n = (if u_netloc u \<noteq> [] then u_netloc u else ''www.vrbo.com'')"
  note pr = urlparse_props [OF assms]
  have s: "scheme_wf s"
    using pr(1) scheme_wf_https by (cases "u_scheme u = []") (simp_all add: s_def)
  have b1: "\<forall>c \<in> set ''www.vrbo.com''. \<not> is_netloc_delim c \<and> \<not> is_unsafe c"
    by (simp add: is_netloc_delim_def is_unsafe_def)
  have b2: "netloc_valid ok ''www.vrbo.com''"
    by (rule netloc_valid_plain) (simp_all add: is_ascii_def)
  have n1: "\<forall>c \<in> set n. \<not> is_netloc_delim c \<and> \<not> is_unsafe c"
    using pr(2) b1 by (cases "u_netloc u = []") (simp_all add: n_def)
  have n2: "netloc_valid ok n"
    using pr(3) b2 by (cases "u_netloc u = []") (simp_all add: n_def)
  have p1: "slashed (u_path u) = [] \<or> hd (slashed (u_path u)) = CHR ''/''" by (rule slashed_props)
  have sl: "\<not> is_unsafe CHR ''/''" by (simp add: is_unsafe_def)
  have p2: "\<forall>c \<in> set (slashed (u_path u)). c \<noteq> CHR ''?'' \<and> c \<noteq> CHR ''#'' \<and> \<not> is_unsafe c"
    using pr(4) slashed_props(3) [of "u_path u"] sl by auto
  have "s \<in> set uses_params \<Longrightarrow> u_scheme u \<in> set uses_params"
    using empty_uses_params by (cases "u_scheme u = []") (simp_all add: s_def)
  then have p3: "s \<in> set uses_params \<longrightarrow> CHR '';'' \<notin> set (after_last CHR ''/'' (slashed (u_path u)))"
    using pr(5) by (auto simp: slashed_props(4))
  have e: "clean_url ok href = s @ ''://'' @ n @ slashed (u_path u)"
    using clean_url_parsed [OF assms] by (simp only: s_def n_def)
  from urlparse_canonical [OF s n1 n2 p1 p2 p3]
  show ?thesis unfolding e by (simp only: s_def n_def)
qed

lemma clean_url_idem: "clean_url ok (clean_url ok href) = clean_url ok href"
proof (cases "urlparse ok href")
  case (Inl e)
  then show ?thesis by (simp add: clean_url_raise)
next
  case (Inr u)
  define s where "s = (if u_scheme u \<noteq> [] then u_scheme u else ''https'')"
  define n where "n = (if u_netloc u \<noteq> [] then u_netloc u else ''www.vrbo.com'')"
  have sn: "s \<noteq> []" "n \<noteq> []" by (simp_all add: s_def n_def)
  have e: "clean_url ok href = s @ ''://'' @ n @ slashed (u_path u)"
    using clean_url_parsed [OF Inr] by (simp only: s_def n_def)
  have "urlparse ok (clean_url ok href)
       = Inr \<lparr>u_scheme = s, u_netloc = n,
              u_path = slashed (u_path u), u_params = [], u_query = [], u_fragment = []\<rparr>"
    using clean_url_reparse [OF Inr] by (simp only: s_def n_def)
  from clean_url_parsed [OF this] sn
  have "clean_url ok (clean_url ok href) = s @ ''://'' @ n @ slashed (u_path u)"
    by (simp add: slashed_props(2))
  with e show ?thesis by simp
qed

lemma clean_url_no_query:
  assumes "urlparse ok href = Inr u"
  shows "CHR ''?'' \<notin> set (clean_url ok href)" and "CHR ''#'' \<notin> set (clean_url ok href)"
proof -
  define s where "s = (if u_scheme u \<noteq> [] then u_scheme u else ''https'')"
  define n where "n = (if u_netloc u \<noteq> [] then u_netloc u else ''www.vrbo.com'')"
  note pr = urlparse_props [OF assms]
  have s: "scheme_wf s"
    using pr(1) scheme_wf_https by (cases "u_scheme u = []") (simp_all add: s_def)
  have "\<forall>c \<in> set ''www.vrbo.com''. c \<noteq> CHR ''?'' \<and> c \<noteq> CHR ''#''" by simp
  moreover have "\<forall>c \<in> set (u_netloc u). c \<noteq> CHR ''?'' \<and> c \<noteq> CHR ''#''"
    using pr(2) by (simp add: is_netloc_delim_def)
  ultimately have n: "\<forall>c \<in> set n. c \<noteq> CHR ''?'' \<and> c \<noteq> CHR ''#''"
    by (cases "u_netloc u = []") (simp_all add: n_def)
  have p: "\<forall>c \<in> set (slashed (u_path u)). c \<noteq> CHR ''?'' \<and> c \<noteq> CHR ''#''"
    using pr(4) slashed_props(3) [of "u_path u"] by auto
  have e: "clean_url ok href = s @ ''://'' @ n @ slashed (u_path u)"
    using clean_url_parsed [OF assms] by (simp only: s_def n_def)
  show "CHR ''?'' \<notin> set (clean_url ok href)"
    unfolding e using scheme_wf_free(2) [OF s] n p by auto
  show "CHR ''#'' \<notin> set (clean_url ok href)"
    unfolding e using scheme_wf_free(3) [OF s] n p by auto
qed

text \<open>
  Claim C7, as the code has it. \<^verbatim>\<open>clean_url\<close> is idempotent on every text. For an
  href that \<^verbatim>\<open>urlparse\<close> accepts, the result is the scheme (\<^verbatim>\<open>https\<close> when
  the href has none), \<^verbatim>\<open>://\<close>, the network location (\<^verbatim>\<open>www.vrbo.com\<close> when
  the href has none) and the path, with a slash in front if needed; query, fragment and
  path parameters are gone, and the result has neither \<^verbatim>\<open>?\<close> nor \<^verbatim>\<open>#\<close>. An
  href that \<^verbatim>\<open>urlparse\<close> rejects with an exception comes back unchanged.
\<close>

theorem clean_url_normalises:
  "clean_url ok (clean_url ok href) = clean_url ok href
   \<and> (\<forall>u. urlparse ok href = Inr u \<longrightarrow>
         clean_url ok href =
           (if u_scheme u \<noteq> [] then u_scheme u else ''https'') @ ''://''
           @ (if u_netloc u \<noteq> [] then u_netloc u else ''www.vrbo.com'') @ slashed (u_path u)
         \<and> CHR ''?'' \<notin> set (clean_url ok href) \<and> CHR ''#'' \<notin> set (clean_url ok href))
   \<and> (\<forall>e. urlparse ok href = Inl e \<longrightarrow> clean_url ok href = href)"
proof (intro conjI allI impI)
  show "clean_url ok (clean_url ok href) = clean_url ok href" by (rule clean_url_idem)
next
  fix u assume "urlparse ok href = Inr u"
  then show "clean_url ok href =
           (if u_scheme u \<noteq> [] then u_scheme u else ''https'') @ ''://''
           @ (if u_netloc u \<noteq> [] then u_netloc u else ''www.vrbo.com'') @ slashed (u_path u)"
    by (rule clean_url_parsed)
next
  fix u assume "urlparse ok href = Inr u"
  then show "CHR ''?'' \<notin> set (clean_url ok href)" by (rule clean_url_no_query)
next
  fix u assume "urlparse ok href = Inr u"
  then show "CHR ''#'' \<notin> set (clean_url ok href)" by (rule clean_url_no_query)
next
  fix e assume "urlparse ok href = Inl e"
  then show "clean_url ok href = href" by (rule clean_url_raise)
qed

lemma parse_rel:
  "urlparse ok_all ''/pdp/lo/1;p?adults=2#top''
     = Inr \<lparr>u_scheme = [], u_netloc = [], u_path = ''/pdp/lo/1'', u_params = ''p'',
            u_query = ''adults=2'', u_fragment = ''top''\<rparr>"
  by (simp add: urlparse_def urlsplit_def split_scheme_def split_netloc_def splitparams_def
      before_first_def after_first_def upto_last_def after_last_def netloc_valid_def
      is_c0_or_space_def is_unsafe_def is_alpha_def is_lower_def is_upper_def uses_params_def)

lemma parse_bad:
  "urlparse ok_all ''//[x?y=1'' = Inl (Exc ''ValueError'')"
  by (simp add: urlparse_def urlsplit_def split_scheme_def split_netloc_def
      before_first_def after_first_def netloc_valid_def is_netloc_delim_def
      is_c0_or_space_def is_unsafe_def)

theorem clean_url_normalises_witness:
  "clean_url ok_all ''/pdp/lo/1;p?adults=2#top'' = ''https://www.vrbo.com/pdp/lo/1''
   \<and> clean_url ok_all ''https://www.vrbo.com/pdp/lo/1'' = ''https://www.vrbo.com/pdp/lo/1''"
proof -
  note t = clean_url_normalises [of ok_all "''/pdp/lo/1;p?adults=2#top''"]
  from t [THEN conjunct2, THEN conjunct1, rule_format, OF parse_rel]
  have a: "clean_url ok_all ''/pdp/lo/1;p?adults=2#top'' = ''https://www.vrbo.com/pdp/lo/1''"
    by (simp add: slashed_def)
  from t [THEN conjunct1] a
  have b: "clean_url ok_all ''https://www.vrbo.com/pdp/lo/1'' = ''https://www.vrbo.com/pdp/lo/1''"
    by simp
  from a b show ?thesis by (intro conjI)
qed

text \<open>
  An href whose network location opens a bracket and never closes it: \<^verbatim>\<open>urlsplit\<close>
  raises \<^verbatim>\<open>ValueError\<close>, and the href is returned with its query.
\<close>

theorem clean_url_invalid_counterexample:
  "clean_url ok_all ''//[x?y=1'' = ''//[x?y=1'' \<and> CHR ''?'' \<in> set (clean_url ok_all ''//[x?y=1'')"
  by (simp add: clean_url_def parse_bad)

subsection \<open>build_entry_url\<close>

subsubsection \<open>Dicts\<close>

lemma map_of_rewrite_other:
  "x \<noteq> k \<Longrightarrow> map_of (map (\<lambda>(k', v'). if k' = k then (k', v) else (k', v')) d) x = map_of d x"
proof (induction d)
  case Nil
  show ?case by simp
next
  case (Cons a d)
  obtain k' v' where a: "a = (k', v')" by (cases a)
  with Cons show ?case by (cases "k' = k") simp_all
qed

lemma map_of_rewrite_key:
  "k \<in> fst ` set d \<Longrightarrow> map_of (map (\<lambda>(k', v'). if k' = k then (k', v) else (k', v')) d) k = Some v"
proof (induction d)
  case Nil
  then show ?case by simp
next
  case (Cons a d)
  obtain k' v' where a: "a = (k', v')" by (cases a)
  show ?case
  proof (cases "k' = k")
    case True
    with a show ?thesis by simp
  next
    case False
    with Cons.prems a have "k \<in> fst ` set d" by auto
    with Cons.IH False a show ?thesis by simp
  qed
qed

lemma map_of_dict_set: "map_of (dict_set k v d) x = (if x = k then Some v else map_of d x)"
proof (cases "k \<in> fst ` set d")
  case False
  then have "map_of d k = None" by (simp add: map_of_eq_None_iff)
  with False show ?thesis by (simp add: dict_set_def map_add_def split: option.splits)
next
  case True
  then show ?thesis by (simp add: dict_set_def map_of_rewrite_key map_of_rewrite_other)
qed

lemma map_of_dict_pop: "map_of (dict_pop k d) x = (if x = k then None else map_of d x)"
  by (induction d) (auto simp: dict_pop_def)

lemma map_of_set_param:
  "k \<notin> set keys \<Longrightarrow> map_of (set_param keys val q) k = map_of q k"
proof (induction keys arbitrary: q)
  case Nil
  show ?case by simp
next
  case (Cons key keys)
  then have "k \<noteq> key" "k \<notin> set keys" by auto
  with Cons.IH show ?case
    by (cases val) (simp_all add: map_of_dict_set map_of_dict_pop)
qed

subsubsection \<open>The children parameter\<close>

lemma key_neq:
  "''children'' \<noteq> ''regionId''" "''children'' \<noteq> ''sort''" "''children'' \<noteq> ''adults''"
  by simp_all

lemma children_overlay:
  "map_of (overlay_query dec qs city) ''children''
     = (if children city \<noteq> 0 then Some (str_int (children city)) else None)"
proof -
  define q3 where "q3 = dict_set ''adults'' (str_int (max 1 (adults city)))
      (set_param [''checkOut'', ''endDate'', ''d2''] (checkout city)
        (set_param [''checkIn'', ''startDate'', ''d1''] (checkin city) (dict_of (parse_qsl dec qs))))"
  define q4 where "q4 = (if children city \<noteq> 0 then dict_set ''children'' (str_int (children city)) q3
                else dict_pop ''children'' q3)"
  define q5 where "q5 = (case region_id city of
                  None \<Rightarrow> q4
                | Some r \<Rightarrow> if r \<noteq> [] then dict_set ''regionId'' r q4 else q4)"
  have e: "overlay_query dec qs city = (if sort_cfg city \<noteq> [] then dict_set ''sort'' (sort_cfg city) q5 else q5)"
    by (simp only: overlay_query_def Let_def q3_def q4_def q5_def)
  have c4: "map_of q4 ''children'' = (if children city \<noteq> 0 then Some (str_int (children city)) else None)"
    by (simp add: q4_def map_of_dict_set map_of_dict_pop)
  have c5: "map_of q5 ''children'' = map_of q4 ''children''"
    by (cases "region_id city") (simp_all add: q5_def map_of_dict_set key_neq)
  show ?thesis unfolding e using c4 c5 by (simp add: map_of_dict_set key_neq)
qed

lemma children_fresh:
  "map_of (fresh_query city) ''children''
     = (if children city \<noteq> 0 then Some (str_int (children city)) else None)"
proof -
  define q4 where "q4 =
    (let q0 = dict_set ''destination'' (destination city) [];
          q1 = (case region_id city of
                  None \<Rightarrow> q0
                | Some r \<Rightarrow> if r \<noteq> [] then dict_set ''regionId'' r q0 else q0);
          q2 = (if flexibility city \<noteq> [] then dict_set ''flexibility'' (flexibility city) q1 else q1);
          q3 = (case checkin city of
                  None \<Rightarrow> q2
                | Some ci \<Rightarrow> if ci \<noteq> [] then dict_set ''startDate'' ci (dict_set ''d1'' ci q2) else q2)
     in (case checkout city of
                  None \<Rightarrow> q3
                | Some co \<Rightarrow> if co \<noteq> [] then dict_set ''endDate'' co (dict_set ''d2'' co q3) else q3))"
  define q5 where "q5 = dict_set ''adults'' (str_int (max 1 (adults city))) q4"
  define q6 where "q6 = (if children city \<noteq> 0 then dict_set ''children'' (str_int (children city)) q5 else q5)"
  have e: "fresh_query city = (if sort_cfg city \<noteq> [] then dict_set ''sort'' (sort_cfg city) q6 else q6)"
    by (simp only: fresh_query_def Let_def q4_def q5_def q6_def)
  have c4: "map_of q4 ''children'' = None"
    unfolding q4_def Let_def
    by (cases "region_id city"; cases "checkin city"; cases "checkout city")
      (simp_all add: map_of_dict_set)
  have c6: "map_of q6 ''children'' = (if children city \<noteq> 0 then Some (str_int (children city)) else None)"
    using c4 by (simp add: q6_def q5_def map_of_dict_set key_neq)
  show ?thesis unfolding e using c6 by (simp add: map_of_dict_set key_neq)
qed

subsubsection \<open>What the overlay keeps\<close>

lemma dict_set_append_other:
  assumes "k \<notin> fst ` set pre"
  shows "dict_set k v (pre @ extra) = pre @ dict_set k v extra"
proof -
  have id: "map (\<lambda>(k', v'). if k' = k then (k', v) else (k', v')) pre = pre"
    using assms by (intro map_idI) (auto simp: image_iff)
  show ?thesis
  proof (cases "k \<in> fst ` set extra")
    case True
    with assms id show ?thesis by (simp add: dict_set_def image_Un)
  next
    case False
    with assms show ?thesis by (simp add: dict_set_def image_Un)
  qed
qed

lemma keys_dict_set: "fst ` set (dict_set k v d) = insert k (fst ` set d)"
proof (cases "k \<in> fst ` set d")
  case True
  have "fst ` set (map (\<lambda>(k', v'). if k' = k then (k', v) else (k', v')) d) = fst ` set d"
    by (induction d) auto
  with True show ?thesis by (auto simp: dict_set_def)
next
  case False
  then show ?thesis by (simp add: dict_set_def)
qed

lemma leads_with_set:
  assumes "leads_with pre d" and "k \<notin> fst ` set pre"
  shows "leads_with pre (dict_set k v d)"
proof -
  from assms(1) obtain extra where e: "d = pre @ extra" "fst ` set pre \<inter> fst ` set extra = {}"
    unfolding leads_with_def by blast
  have "dict_set k v d = pre @ dict_set k v extra"
    unfolding e(1) by (rule dict_set_append_other [OF assms(2)])
  moreover have "fst ` set pre \<inter> fst ` set (dict_set k v extra) = {}"
    using e(2) assms(2) by (simp add: keys_dict_set)
  ultimately show ?thesis unfolding leads_with_def by blast
qed

lemma leads_with_pop:
  assumes "leads_with pre d" and "k \<notin> fst ` set pre"
  shows "leads_with pre (dict_pop k d)"
proof -
  from assms(1) obtain extra where e: "d = pre @ extra" "fst ` set pre \<inter> fst ` set extra = {}"
    unfolding leads_with_def by blast
  have "filter (\<lambda>(k', v'). k' \<noteq> k) pre = pre"
    using assms(2) by (intro filter_True) (auto simp: image_iff)
  then have "dict_pop k d = pre @ dict_pop k extra" by (simp add: e(1) dict_pop_def)
  moreover have "fst ` set pre \<inter> fst ` set (dict_pop k extra) = {}"
    using e(2) by (auto simp: dict_pop_def)
  ultimately show ?thesis unfolding leads_with_def by blast
qed

lemma leads_with_set_param:
  "leads_with pre d \<Longrightarrow> set keys \<inter> fst ` set pre = {} \<Longrightarrow> leads_with pre (set_param keys val d)"
proof (induction keys arbitrary: d)
  case Nil
  then show ?case by simp
next
  case (Cons key keys)
  from Cons.prems(2) have k: "key \<notin> fst ` set pre" and ks: "set keys \<inter> fst ` set pre = {}" by auto
  have "leads_with pre (case val of None \<Rightarrow> dict_pop key d
        | Some v \<Rightarrow> if v \<noteq> [] then dict_set key v d else dict_pop key d)"
    using leads_with_set [OF Cons.prems(1) k] leads_with_pop [OF Cons.prems(1) k]
    by (cases val) simp_all
  from Cons.IH [OF this ks] show ?case by simp
qed

lemma leads_with_adults:
  assumes "leads_with [(''foo'', ''bar''), (''adults'', a)] d"
  shows "leads_with [(''foo'', ''bar''), (''adults'', v)] (dict_set ''adults'' v d)"
proof -
  from assms obtain extra where e: "d = [(''foo'', ''bar''), (''adults'', a)] @ extra"
    "fst ` set [(''foo'', ''bar''), (''adults'', a)] \<inter> fst ` set extra = {}"
    unfolding leads_with_def by blast
  from e(2) have ne: "''adults'' \<notin> fst ` set extra" "''foo'' \<notin> fst ` set extra" by auto
  have "map (\<lambda>(k', v'). if k' = ''adults'' then (k', v) else (k', v')) extra = extra"
    using ne(1) by (intro map_idI) (auto simp: image_iff)
  then have "dict_set ''adults'' v d = [(''foo'', ''bar''), (''adults'', v)] @ extra"
    by (simp add: e(1) dict_set_def)
  moreover have "fst ` set [(''foo'', ''bar''), (''adults'', v)] \<inter> fst ` set extra = {}"
    using ne by simp
  ultimately show ?thesis unfolding leads_with_def by blast
qed

lemma parse_foo_bar:
  "dict_of (parse_qsl dec ''foo=bar&adults=1'') = [(''foo'', ''bar''), (''adults'', ''1'')]"
  by (simp add: parse_qsl_def before_first_def after_first_def unquote_plus_def unquote_def
      dict_of_def dict_set_def)

lemma overlay_foo_bar:
  "leads_with [(''foo'', ''bar''), (''adults'', str_int (max 1 (adults city)))]
     (overlay_query dec ''foo=bar&adults=1'' city)"
proof -
  define q0 where "q0 = dict_of (parse_qsl dec ''foo=bar&adults=1'')"
  define q2 where "q2 = set_param [''checkOut'', ''endDate'', ''d2''] (checkout city)
        (set_param [''checkIn'', ''startDate'', ''d1''] (checkin city) q0)"
  define q3 where "q3 = dict_set ''adults'' (str_int (max 1 (adults city))) q2"
  define q4 where "q4 = (if children city \<noteq> 0 then dict_set ''children'' (str_int (children city)) q3
                else dict_pop ''children'' q3)"
  define q5 where "q5 = (case region_id city of
                  None \<Rightarrow> q4
                | Some r \<Rightarrow> if r \<noteq> [] then dict_set ''regionId'' r q4 else q4)"
  have e: "overlay_query dec ''foo=bar&adults=1'' city
      = (if sort_cfg city \<noteq> [] then dict_set ''sort'' (sort_cfg city) q5 else q5)"
    by (simp only: overlay_query_def Let_def q0_def q2_def q3_def q4_def q5_def)
  have l0: "leads_with [(''foo'', ''bar''), (''adults'', ''1'')] q0"
    unfolding q0_def parse_foo_bar leads_with_def by simp
  have l2: "leads_with [(''foo'', ''bar''), (''adults'', ''1'')] q2"
    unfolding q2_def by (intro leads_with_set_param l0) simp_all
  let ?pre = "[(''foo'', ''bar''), (''adults'', str_int (max 1 (adults city)))]"
  have l3: "leads_with ?pre q3" unfolding q3_def by (rule leads_with_adults [OF l2])
  have l4: "leads_with ?pre q4"
    unfolding q4_def using leads_with_set [OF l3, of "''children''"] leads_with_pop [OF l3, of "''children''"]
    by simp
  have l5: "leads_with ?pre q5"
    unfolding q5_def using l4 leads_with_set [OF l4, of "''regionId''"]
    by (cases "region_id city") simp_all
  show ?thesis unfolding e using l5 leads_with_set [OF l5, of "''sort''"] by simp
qed

lemma urlencode_Cons:
  "urlencode ((k, v) # rest) = quote_plus k @ ''='' @ quote_plus v @ amp_pairs rest"
proof (induction rest arbitrary: k v)
  case Nil
  show ?case by (simp add: urlencode_def amp_pairs_def)
next
  case (Cons p rest)
  obtain k' v' where p: "p = (k', v')" by (cases p)
  from Cons.IH [of k' v'] show ?case
    by (simp add: urlencode_def amp_pairs_def p)
qed

lemma quote_plain:
  "quote_plus ''foo'' = ''foo''" "quote_plus ''bar'' = ''bar''" "quote_plus ''adults'' = ''adults''"
  "quote_plus ''3'' = ''3''" "quote_plus ''destination'' = ''destination''"
  by (simp_all add: quote_plus_def quote_byte_def is_always_safe_def is_alpha_def is_lower_def is_digit_def)

subsubsection \<open>The URL that is built\<close>

lemmas eval_quote = quote_plus_def quote_byte_def is_always_safe_def is_alpha_def is_lower_def
  is_upper_def is_digit_def hex_digit_def urlencode_def

lemma parse_search:
  "urlparse ok_all ''https://www.vrbo.com/search?foo=bar&adults=1''
     = Inr \<lparr>u_scheme = ''https'', u_netloc = ''www.vrbo.com'', u_path = ''/search'', u_params = [],
            u_query = ''foo=bar&adults=1'', u_fragment = []\<rparr>"
  by (simp add: urlparse_def urlsplit_def split_scheme_def split_netloc_def splitparams_def
      before_first_def after_first_def upto_last_def after_last_def netloc_valid_def
      is_c0_or_space_def is_unsafe_def is_alpha_def is_lower_def is_upper_def uses_params_def
      is_scheme_char_def is_netloc_delim_def is_ascii_def to_lower_def)

lemma fresh_leads: "leads_with [(''destination'', destination city)] (fresh_query city)"
proof -
  let ?pre = "[(''destination'', destination city)]"
  define q0 where "q0 = dict_set ''destination'' (destination city) []"
  define q1 where "q1 = (case region_id city of
                  None \<Rightarrow> q0
                | Some r \<Rightarrow> if r \<noteq> [] then dict_set ''regionId'' r q0 else q0)"
  define q2 where "q2 = (if flexibility city \<noteq> [] then dict_set ''flexibility'' (flexibility city) q1 else q1)"
  define q3 where "q3 = (case checkin city of
                  None \<Rightarrow> q2
                | Some ci \<Rightarrow> if ci \<noteq> [] then dict_set ''startDate'' ci (dict_set ''d1'' ci q2) else q2)"
  define q4 where "q4 = (case checkout city of
                  None \<Rightarrow> q3
                | Some co \<Rightarrow> if co \<noteq> [] then dict_set ''endDate'' co (dict_set ''d2'' co q3) else q3)"
  define q5 where "q5 = dict_set ''adults'' (str_int (max 1 (adults city))) q4"
  define q6 where "q6 = (if children city \<noteq> 0 then dict_set ''children'' (str_int (children city)) q5 else q5)"
  have e: "fresh_query city = (if sort_cfg city \<noteq> [] then dict_set ''sort'' (sort_cfg city) q6 else q6)"
    by (simp only: fresh_query_def Let_def q0_def q1_def q2_def q3_def q4_def q5_def q6_def)
  have l0: "leads_with ?pre q0" by (simp add: q0_def dict_set_def leads_with_def)
  have l1: "leads_with ?pre q1"
    unfolding q1_def using l0 leads_with_set [OF l0, of "''regionId''"]
    by (cases "region_id city") simp_all
  have l2: "leads_with ?pre q2"
    unfolding q2_def using l1 leads_with_set [OF l1, of "''flexibility''"] by simp
  have l3: "leads_with ?pre q3"
  proof (cases "checkin city")
    case None
    with l2 show ?thesis by (simp add: q3_def)
  next
    case (Some ci)
    have "leads_with ?pre (dict_set ''d1'' ci q2)" by (rule leads_with_set [OF l2]) simp
    then have "leads_with ?pre (dict_set ''startDate'' ci (dict_set ''d1'' ci q2))"
      by (rule leads_with_set) simp
    with l2 Some show ?thesis by (simp add: q3_def)
  qed
  have l4: "leads_with ?pre q4"
  proof (cases "checkout city")
    case None
    with l3 show ?thesis by (simp add: q4_def)
  next
    case (Some co)
    have "leads_with ?pre (dict_set ''d2'' co q3)" by (rule leads_with_set [OF l3]) simp
    then have "leads_with ?pre (dict_set ''endDate'' co (dict_set ''d2'' co q3))"
      by (rule leads_with_set) simp
    with l3 Some show ?thesis by (simp add: q4_def)
  qed
  have l5: "leads_with ?pre q5" unfolding q5_def by (rule leads_with_set [OF l4]) simp
  have l6: "leads_with ?pre q6"
    unfolding q6_def using l5 leads_with_set [OF l5, of "''children''"] by simp
  show ?thesis unfolding e using l6 leads_with_set [OF l6, of "''sort''"] by simp
qed

lemma destination_eq:
  "destination city =
     (case region_name city of
        Some r \<Rightarrow> if r \<noteq> [] then r else if name city \<noteq> [] then name city else ''Colombia''
      | None \<Rightarrow> if name city \<noteq> [] then name city else ''Colombia'')"
  by (cases "region_name city") (simp_all add: destination_def py_or_def truthy_def)

lemma build_overlay:
  assumes "search_url city = Some url" and "url \<noteq> []" and "urlparse ok url = Inr u"
  shows "build_entry_url ok dec city
       = Inr (urlunparse (u\<lparr>u_query := urlencode (overlay_query dec (u_query u) city)\<rparr>))"
  using assms by (simp add: build_entry_url_def truthy_def)

lemma build_fresh:
  assumes "\<not> truthy (search_url city)"
  shows "\<exists>rest. fresh_query city = (''destination'', destination city) # rest
           \<and> ''destination'' \<notin> fst ` set rest
           \<and> build_entry_url ok dec city
              = Inr (''https://www.vrbo.com/search?destination='' @ quote_plus (destination city)
                     @ amp_pairs rest)"
proof -
  from fresh_leads [of city] obtain rest where
    r: "fresh_query city = (''destination'', destination city) # rest"
    and n: "''destination'' \<notin> fst ` set rest"
    unfolding leads_with_def by auto
  have "build_entry_url ok dec city
      = Inr (''https://www.vrbo.com/search?destination='' @ quote_plus (destination city) @ amp_pairs rest)"
    using assms by (simp add: build_entry_url_def r urlencode_Cons VRBO_BASE_def quote_plain)
  with r n show ?thesis by blast
qed

lemma build_foo_bar:
  assumes "search_url city = Some url" and "url \<noteq> []" and "urlparse ok url = Inr u"
    and "u_query u = ''foo=bar&adults=1''" and "adults city = 3"
  shows "\<exists>extra. overlay_query dec (u_query u) city = [(''foo'', ''bar''), (''adults'', ''3'')] @ extra
           \<and> ''foo'' \<notin> fst ` set extra \<and> ''adults'' \<notin> fst ` set extra
           \<and> build_entry_url ok dec city
              = Inr (urlunparse (u\<lparr>u_query := ''foo=bar&adults=3'' @ amp_pairs extra\<rparr>))"
proof -
  have s: "str_int (max 1 (adults city)) = ''3''" by (simp add: assms(5) eval_str)
  from overlay_foo_bar [of city dec] obtain extra where
    e: "overlay_query dec ''foo=bar&adults=1'' city = [(''foo'', ''bar''), (''adults'', ''3'')] @ extra"
    and n: "''foo'' \<notin> fst ` set extra" "''adults'' \<notin> fst ` set extra"
    unfolding leads_with_def s by auto
  have "urlencode (overlay_query dec (u_query u) city) = ''foo=bar&adults=3'' @ amp_pairs extra"
    by (simp add: assms(4) e urlencode_Cons quote_plain amp_pairs_def)
  with build_overlay [OF assms(1,2,3), of dec] e n assms(4) show ?thesis by auto
qed

text \<open>
  Claim C6, as the code has it. For a config whose search URL is a non-empty text that
  \<^verbatim>\<open>urlparse\<close> accepts, \<^verbatim>\<open>build_entry_url\<close> returns that URL with its query
  replaced by the encoding of the overlaid dict; when the query of the URL is
  \<^verbatim>\<open>foo=bar&adults=1\<close> and the config has 3 adults, the new query starts with
  \<^verbatim>\<open>foo=bar&adults=3\<close> and no later pair has the key \<^verbatim>\<open>foo\<close> or \<^verbatim>\<open>adults\<close>.
  For a config without a search URL (\<^verbatim>\<open>None\<close> or empty) the URL is
  \<^verbatim>\<open>https://www.vrbo.com/search?destination=\<close> followed by the quoted destination and
  the other pairs, none of them with the key \<^verbatim>\<open>destination\<close>. The destination is
  the region name when that is there and not empty, else the name when that is not
  empty, else \<^verbatim>\<open>Colombia\<close>. In both branches the dict that is encoded has the key
  \<^verbatim>\<open>children\<close> exactly when the children count is not zero, whatever the search URL
  carried, and its value is then the decimal text of the count.
\<close>

theorem build_entry_url_spec:
  "(\<forall>url u. search_url city = Some url \<and> url \<noteq> [] \<and> urlparse ok url = Inr u \<longrightarrow>
      build_entry_url ok dec city
        = Inr (urlunparse (u\<lparr>u_query := urlencode (overlay_query dec (u_query u) city)\<rparr>))
      \<and> (u_query u = ''foo=bar&adults=1'' \<and> adults city = 3 \<longrightarrow>
           (\<exists>extra. overlay_query dec (u_query u) city = [(''foo'', ''bar''), (''adults'', ''3'')] @ extra
              \<and> ''foo'' \<notin> fst ` set extra \<and> ''adults'' \<notin> fst ` set extra
              \<and> build_entry_url ok dec city
                 = Inr (urlunparse (u\<lparr>u_query := ''foo=bar&adults=3'' @ amp_pairs extra\<rparr>)))))
   \<and> (\<not> truthy (search_url city) \<longrightarrow>
        (\<exists>rest. fresh_query city = (''destination'', destination city) # rest
           \<and> ''destination'' \<notin> fst ` set rest
           \<and> build_entry_url ok dec city
              = Inr (''https://www.vrbo.com/search?destination='' @ quote_plus (destination city)
                     @ amp_pairs rest)))
   \<and> destination city =
       (case region_name city of
          Some r \<Rightarrow> if r \<noteq> [] then r else if name city \<noteq> [] then name city else ''Colombia''
        | None \<Rightarrow> if name city \<noteq> [] then name city else ''Colombia'')
   \<and> map_of (overlay_query dec qs city) ''children''
       = (if children city \<noteq> 0 then Some (str_int (children city)) else None)
   \<and> map_of (fresh_query city) ''children''
       = (if children city \<noteq> 0 then Some (str_int (children city)) else None)"
proof (intro conjI allI impI)
  fix url u
  assume h: "search_url city = Some url \<and> url \<noteq> [] \<and> urlparse ok url = Inr u"
  then have h1: "search_url city = Some url" and h2: "url \<noteq> []" and h3: "urlparse ok url = Inr u"
    by simp_all
  show "build_entry_url ok dec city
        = Inr (urlunparse (u\<lparr>u_query := urlencode (overlay_query dec (u_query u) city)\<rparr>))"
    by (rule build_overlay [OF h1 h2 h3])
  assume g: "u_query u = ''foo=bar&adults=1'' \<and> adults city = 3"
  then have g1: "u_query u = ''foo=bar&adults=1''" and g2: "adults city = 3" by simp_all
  show "\<exists>extra. overlay_query dec (u_query u) city = [(''foo'', ''bar''), (''adults'', ''3'')] @ extra
              \<and> ''foo'' \<notin> fst ` set extra \<and> ''adults'' \<notin> fst ` set extra
              \<and> build_entry_url ok dec city
                 = Inr (urlunparse (u\<lparr>u_query := ''foo=bar&adults=3'' @ amp_pairs extra\<rparr>))"
    by (rule build_foo_bar [OF h1 h2 h3 g1 g2])
next
  assume "\<not> truthy (search_url city)"
  then show "\<exists>rest. fresh_query city = (''destination'', destination city) # rest
           \<and> ''destination'' \<notin> fst ` set rest
           \<and> build_entry_url ok dec city
              = Inr (''https://www.vrbo.com/search?destination='' @ quote_plus (destination city)
                     @ amp_pairs rest)"
    by (rule build_fresh)
next
  show "destination city =
       (case region_name city of
          Some r \<Rightarrow> if r \<noteq> [] then r else if name city \<noteq> [] then name city else ''Colombia''
        | None \<Rightarrow> if name city \<noteq> [] then name city else ''Colombia'')"
    by (rule destination_eq)
next
  show "map_of (overlay_query dec qs city) ''children''
       = (if children city \<noteq> 0 then Some (str_int (children city)) else None)"
    by (rule children_overlay)
next
  show "map_of (fresh_query city) ''children''
       = (if children city \<noteq> 0 then Some (str_int (children city)) else None)"
    by (rule children_fresh)
qed

theorem build_entry_url_spec_witness:
  "(\<exists>extra. ''foo'' \<notin> fst ` set extra \<and> ''adults'' \<notin> fst ` set extra
       \<and> build_entry_url ok_all dec_id cali_url
           = Inr (''https://www.vrbo.com/search?foo=bar&adults=3'' @ amp_pairs extra))
   \<and> (\<exists>rest. ''destination'' \<notin> fst ` set rest
       \<and> build_entry_url ok_all dec_id cali
           = Inr (''https://www.vrbo.com/search?destination=Cali'' @ amp_pairs rest))
   \<and> map_of (overlay_query dec_id ''foo=bar&adults=1'' cali_url) ''children'' = None
   \<and> map_of (fresh_query (cali\<lparr>children := 2\<rparr>)) ''children'' = Some ''2''"
proof -
  note t = build_entry_url_spec [of cali_url ok_all dec_id "''foo=bar&adults=1''"]
  note s = build_entry_url_spec [of cali ok_all dec_id "[]"]
  note k = build_entry_url_spec [of "cali\<lparr>children := 2\<rparr>" ok_all dec_id "[]"]
  let ?u = "\<lparr>u_scheme = ''https'', u_netloc = ''www.vrbo.com'', u_path = ''/search'', u_params = [],
            u_query = ''foo=bar&adults=1'', u_fragment = []\<rparr>"
  have h: "search_url cali_url = Some ''https://www.vrbo.com/search?foo=bar&adults=1''
      \<and> ''https://www.vrbo.com/search?foo=bar&adults=1'' \<noteq> []
      \<and> urlparse ok_all ''https://www.vrbo.com/search?foo=bar&adults=1'' = Inr ?u"
    by (simp add: cali_url_def parse_search)
  have g: "u_query ?u = ''foo=bar&adults=1'' \<and> adults cali_url = 3"
    by (simp add: cali_url_def)
  from t [THEN conjunct1, rule_format, OF h, THEN conjunct2, rule_format, OF g]
  obtain extra where e: "''foo'' \<notin> fst ` set extra" "''adults'' \<notin> fst ` set extra"
    "build_entry_url ok_all dec_id cali_url
       = Inr (urlunparse (?u\<lparr>u_query := ''foo=bar&adults=3'' @ amp_pairs extra\<rparr>))"
    by blast
  have "urlunparse (?u\<lparr>u_query := ''foo=bar&adults=3'' @ amp_pairs extra\<rparr>)
      = ''https://www.vrbo.com/search?foo=bar&adults=3'' @ amp_pairs extra"
    by (simp add: urlunparse_def urlunsplit_def)
  with e have a: "\<exists>extra. ''foo'' \<notin> fst ` set extra \<and> ''adults'' \<notin> fst ` set extra
       \<and> build_entry_url ok_all dec_id cali_url
           = Inr (''https://www.vrbo.com/search?foo=bar&adults=3'' @ amp_pairs extra)"
    by auto
  have n: "\<not> truthy (search_url cali)" by (simp add: cali_def truthy_def)
  have d: "destination cali = ''Cali''"
    using s [THEN conjunct2, THEN conjunct2, THEN conjunct1] by (simp add: cali_def)
  have q: "quote_plus ''Cali'' = ''Cali''" by (simp add: eval_quote)
  from s [THEN conjunct2, THEN conjunct1, rule_format, OF n]
  have b: "\<exists>rest. ''destination'' \<notin> fst ` set rest
       \<and> build_entry_url ok_all dec_id cali
           = Inr (''https://www.vrbo.com/search?destination=Cali'' @ amp_pairs rest)"
    by (auto simp: d q)
  have c: "map_of (overlay_query dec_id ''foo=bar&adults=1'' cali_url) ''children'' = None"
    using t [THEN conjunct2, THEN conjunct2, THEN conjunct2, THEN conjunct1]
    by (simp add: cali_url_def cali_def)
  have f: "map_of (fresh_query (cali\<lparr>children := 2\<rparr>)) ''children'' = Some ''2''"
    using k [THEN conjunct2, THEN conjunct2, THEN conjunct2, THEN conjunct2]
    by (simp add: eval_str)
  from a b c f show ?thesis by (intro conjI)
qed

text \<open>
  A config with a children count of \<^verbatim>\<open>-1\<close>: the count is not greater than 0, and the
  URL carries \<^verbatim>\<open>children=-1\<close>. A config with no region name and an empty name: the
  destination is \<^verbatim>\<open>Colombia\<close>, not the name.
\<close>

theorem build_entry_url_children_counterexample:
  "build_entry_url ok_all dec_id (cali\<lparr>children := - 1\<rparr>)
     = Inr ''https://www.vrbo.com/search?destination=Cali&adults=2&children=-1''
   \<and> region_name (cali\<lparr>name := []\<rparr>) = None
   \<and> build_entry_url ok_all dec_id (cali\<lparr>name := []\<rparr>)
     = Inr ''https://www.vrbo.com/search?destination=Colombia&adults=2''"
  by (simp add: build_entry_url_def cali_def truthy_def fresh_query_def destination_def py_or_def
      dict_set_def VRBO_BASE_def eval_str eval_quote)

end
